theory Spec2Isabelle
  imports Complex_Main "HOL-Library.Char_ord" "HOL-Library.List_Lexorder"
    "HOL-Library.Product_Lexorder" "HOL-Library.Multiset" "HOL-Library.Sublist"
begin

section \<open>Binary64 arithmetic\<close>

text \<open>
  The numbers of the program are IEEE 754 binary64 values and every arithmetic operation
  rounds its exact result to the nearest of them, ties to the even significand. A finite
  binary64 value is a rational, so the rounding is a function on an ordered field.
  \<open>binade x\<close> is the power of two \<open>p\<close> with \<open>p \<le> x < 2 * p\<close>, and not less than the
  smallest normal number \<open>tiny\<close>, below which the spacing stays that of the subnormals;
  it is found by doubling from 1 (\<open>up\<close>) or halving from 1 (\<open>down\<close>). The values around
  \<open>x\<close> are the multiples of \<open>binade x / 2 ^ 52\<close>, and \<open>nearest x\<close> is the nearest multiple
  for \<open>0 \<le> x\<close>. \<open>binary64\<close> is the rounding of any \<open>x\<close>; it is the result of an operation
  whose exact result is \<open>x\<close> as long as that is below the overflow threshold, which the
  callers decide.
\<close>

lemma ceiling_half_less:
  fixes y :: "'a::floor_ceiling"
  assumes "1 < y"
  shows "\<lceil>y / 2\<rceil> < \<lceil>y\<rceil>"
proof -
  have "1 < \<lceil>y\<rceil>" using assms by (simp add: less_ceiling_iff)
  then have "2 \<le> \<lceil>y\<rceil>" by simp
  then have "(of_int 2 :: 'a) \<le> of_int \<lceil>y\<rceil>" by (simp only: of_int_le_iff)
  then have c: "(2::'a) \<le> of_int \<lceil>y\<rceil>" by simp
  have "y \<le> of_int \<lceil>y\<rceil>" by (rule le_of_int_ceiling)
  with c have "y / 2 \<le> of_int \<lceil>y\<rceil> - 1" by linarith
  then have "y / 2 \<le> of_int (\<lceil>y\<rceil> - 1)" by simp
  then have "\<lceil>y / 2\<rceil> \<le> \<lceil>y\<rceil> - 1" by (rule ceiling_le)
  then show ?thesis by simp
qed

text \<open>The exponent of the smallest normal number, \<open>2 ^ - 1022\<close>.\<close>

definition emin :: nat where
  "emin = 1022"

definition tiny :: "'a::floor_ceiling" where
  "tiny = 1 / 2 ^ emin"

function up :: "'a::floor_ceiling \<Rightarrow> 'a \<Rightarrow> 'a" where
  "up x p = (if 0 < p \<and> 2 * p \<le> x then up x (2 * p) else p)"
  by pat_completeness auto
termination
proof (relation "measure (\<lambda>(x, p). nat \<lceil>x / p\<rceil>)")
  show "wf (measure (\<lambda>(x :: 'a, p). nat \<lceil>x / p\<rceil>))" by simp
next
  fix x p :: 'a
  assume h: "0 < p \<and> 2 * p \<le> x"
  then have q: "2 \<le> x / p" by (simp add: pos_le_divide_eq)
  then have "1 < x / p" by simp
  from ceiling_half_less[OF this] have "\<lceil>x / (2 * p)\<rceil> < \<lceil>x / p\<rceil>" by (simp add: field_simps)
  moreover have "0 < \<lceil>x / p\<rceil>" using q by (simp add: less_ceiling_iff)
  ultimately show "((x, 2 * p), (x, p)) \<in> measure (\<lambda>(x, p). nat \<lceil>x / p\<rceil>)"
    by simp
qed

function down :: "'a::floor_ceiling \<Rightarrow> 'a \<Rightarrow> 'a" where
  "down x p = (if x < p \<and> tiny < p then down x (p / 2) else p)"
  by pat_completeness auto
termination
proof (relation "measure (\<lambda>(x, p). nat \<lceil>p / tiny\<rceil>)")
  show "wf (measure (\<lambda>(x :: 'a, p). nat \<lceil>p / tiny\<rceil>))" by simp
next
  fix x p :: 'a
  assume h: "x < p \<and> tiny < p"
  have t: "(0::'a) < tiny" by (simp add: tiny_def)
  with h have q: "1 < p / tiny" by (simp add: pos_less_divide_eq)
  from ceiling_half_less[OF q] have "\<lceil>p / 2 / tiny\<rceil> < \<lceil>p / tiny\<rceil>" by (simp add: field_simps)
  moreover have "0 < \<lceil>p / tiny\<rceil>" using q by (simp add: less_ceiling_iff)
  ultimately show "((x, p / 2), (x, p)) \<in> measure (\<lambda>(x, p). nat \<lceil>p / tiny\<rceil>)"
    by simp
qed

declare up.simps [simp del] down.simps [simp del]

definition binade :: "'a::floor_ceiling \<Rightarrow> 'a" where
  "binade x = (if 1 \<le> x then up x 1 else down x 1)"

text \<open>Rounding to the nearest integer, a tie going to the even one.\<close>

definition roundEven :: "'a::floor_ceiling \<Rightarrow> int" where
  "roundEven m =
     (let f = \<lfloor>m\<rfloor>; d = m - of_int f
      in if d < 1 / 2 then f else if 1 / 2 < d then f + 1 else if even f then f else f + 1)"

definition nearest :: "'a::floor_ceiling \<Rightarrow> 'a" where
  "nearest x = (let u = binade x / 2 ^ 52 in of_int (roundEven (x / u)) * u)"

definition binary64 :: "'a::floor_ceiling \<Rightarrow> 'a" where
  "binary64 x = (if x < 0 then - nearest (- x) else nearest x)"

subsection \<open>Facts about the rounding\<close>

lemma tiny_pos: "(0::'a::floor_ceiling) < tiny"
  by (simp add: tiny_def)

lemma up_spec:
  fixes x p :: "'a::floor_ceiling"
  shows "0 < p \<Longrightarrow> p \<le> x \<Longrightarrow> \<exists>n. up x p = p * 2 ^ n \<and> up x p \<le> x \<and> x < 2 * up x p"
proof (induction x p rule: up.induct)
  case (1 x p)
  show ?case
  proof (cases "2 * p \<le> x")
    case True
    with 1 obtain n where n: "up x (2 * p) = 2 * p * 2 ^ n" "up x (2 * p) \<le> x" "x < 2 * up x (2 * p)"
      by auto
    have u: "up x p = up x (2 * p)" using True 1(2) by (subst up.simps) simp
    have "up x p = p * 2 ^ Suc n" unfolding u n(1) by simp
    moreover have "up x p \<le> x" "x < 2 * up x p" unfolding u by (fact n)+
    ultimately show ?thesis by blast
  next
    case False
    then have u: "up x p = p" by (subst up.simps) simp
    have "up x p = p * 2 ^ 0" unfolding u by simp
    moreover have "up x p \<le> x" "x < 2 * up x p" unfolding u using False 1(3) by simp_all
    ultimately show ?thesis by blast
  qed
qed

lemma down_spec:
  fixes x :: "'a::floor_ceiling"
  shows "x < 2 * (tiny * 2 ^ n) \<Longrightarrow>
    \<exists>m\<le>n. down x (tiny * 2 ^ n) = tiny * 2 ^ m \<and> x < 2 * (tiny * 2 ^ m) \<and> (tiny * 2 ^ m \<le> x \<or> m = 0)"
proof (induction n)
  case 0
  have "down x tiny = tiny" by (subst down.simps) simp
  with 0 show ?case by simp
next
  case (Suc n)
  let ?p = "tiny * 2 ^ Suc n :: 'a"
  show ?case
  proof (cases "x < ?p")
    case True
    have "(1::'a) < 2 ^ Suc n" by (rule one_less_power) simp_all
    then have t: "(tiny::'a) < ?p" using tiny_pos[where 'a='a] by (simp del: power_Suc)
    have "down x ?p = down x (?p / 2)" using True t by (subst down.simps) simp
    also have "?p / 2 = tiny * 2 ^ n" by simp
    finally have d: "down x ?p = down x (tiny * 2 ^ n)" .
    from True have "x < 2 * (tiny * 2 ^ n)" by simp
    from Suc.IH[OF this] obtain m where "m \<le> n" "down x (tiny * 2 ^ n) = tiny * 2 ^ m"
      "x < 2 * (tiny * 2 ^ m)" "tiny * 2 ^ m \<le> x \<or> m = 0" by blast
    with d show ?thesis by (metis le_Suc_eq)
  next
    case False
    then have "down x ?p = ?p" by (subst down.simps) simp
    with False Suc.prems show ?thesis by (metis not_less order_refl)
  qed
qed

lemma tiny_emin: "(tiny :: 'a::floor_ceiling) * 2 ^ emin = 1"
  by (simp add: tiny_def)

lemma binade_spec:
  fixes x :: "'a::floor_ceiling"
  shows "\<exists>m. binade x = tiny * 2 ^ m \<and> x < 2 * binade x \<and> (binade x \<le> x \<or> m = 0)"
proof (cases "1 \<le> x")
  case True
  then have b: "binade x = up x 1" by (simp add: binade_def)
  from up_spec[of 1 x] True obtain n where n: "up x 1 = 2 ^ n" "up x 1 \<le> x" "x < 2 * up x 1"
    by auto
  have "(2::'a) ^ n = tiny * 2 ^ emin * 2 ^ n" unfolding tiny_emin by simp
  also have "\<dots> = tiny * 2 ^ (emin + n)" unfolding power_add by (simp only: mult.assoc)
  finally have "binade x = tiny * 2 ^ (emin + n)" unfolding b n(1) .
  moreover have "x < 2 * binade x" "binade x \<le> x" unfolding b by (fact n)+
  ultimately show ?thesis by blast
next
  case False
  then have b: "binade x = down x (tiny * 2 ^ emin)" unfolding tiny_emin by (simp add: binade_def)
  from False have "x < 2 * (tiny * 2 ^ emin)" unfolding tiny_emin by simp
  from down_spec[OF this] obtain m where m: "down x (tiny * 2 ^ emin) = tiny * 2 ^ m"
      "x < 2 * (tiny * 2 ^ m)" "tiny * 2 ^ m \<le> x \<or> m = 0" by blast
  have "binade x = tiny * 2 ^ m" unfolding b by (fact m(1))
  moreover from this m have "x < 2 * binade x" "binade x \<le> x \<or> m = 0" by simp_all
  ultimately show ?thesis by blast
qed

lemma scale_less_iff:
  "(tiny :: 'a::floor_ceiling) * 2 ^ a < tiny * 2 ^ b \<longleftrightarrow> a < b"
  using tiny_pos[where 'a='a] by simp

lemma scale_le_iff:
  "(tiny :: 'a::floor_ceiling) * 2 ^ a \<le> tiny * 2 ^ b \<longleftrightarrow> a \<le> b"
  using tiny_pos[where 'a='a] by simp

lemma binade_unique:
  fixes x :: "'a::floor_ceiling"
  assumes "x < 2 * (tiny * 2 ^ m)" "tiny * 2 ^ m \<le> x \<or> m = 0"
  shows "binade x = tiny * 2 ^ m"
proof -
  from binade_spec[of x] obtain k where k: "binade x = tiny * 2 ^ k" "x < 2 * (tiny * 2 ^ k)"
    "tiny * 2 ^ k \<le> x \<or> k = 0" by metis
  have km: "k \<le> m"
  proof (cases "k = 0")
    case False
    with k(3) assms(1) have "(tiny::'a) * 2 ^ k < tiny * 2 ^ Suc m" by simp
    then have "k < Suc m" by (simp only: scale_less_iff)
    then show ?thesis by simp
  qed simp
  have mk: "m \<le> k"
  proof (cases "m = 0")
    case False
    with assms(2) k(2) have "(tiny::'a) * 2 ^ m < tiny * 2 ^ Suc k" by simp
    then have "m < Suc k" by (simp only: scale_less_iff)
    then show ?thesis by simp
  qed simp
  from km mk k(1) show ?thesis by simp
qed

lemma roundEven_of_int: "roundEven (of_int k :: 'a::floor_ceiling) = k"
  by (simp add: roundEven_def)

lemma roundEven_floor:
  fixes m :: "'a::floor_ceiling"
  shows "\<lfloor>m\<rfloor> \<le> roundEven m" and "roundEven m \<le> \<lfloor>m\<rfloor> + 1"
  by (simp_all add: roundEven_def Let_def)

lemma roundEven_lower:
  fixes m :: "'a::floor_ceiling"
  assumes "of_int k \<le> m"
  shows "k \<le> roundEven m"
proof -
  from assms have "k \<le> \<lfloor>m\<rfloor>" by (simp add: le_floor_iff)
  with roundEven_floor(1)[of m] show ?thesis by simp
qed

lemma roundEven_upper:
  fixes m :: "'a::floor_ceiling"
  assumes "m \<le> of_int k"
  shows "roundEven m \<le> k"
proof (cases "m = of_int k")
  case True
  then show ?thesis by (simp add: roundEven_of_int)
next
  case False
  with assms have "m < of_int k" by simp
  then have "\<lfloor>m\<rfloor> < k" by (simp add: floor_less_iff)
  with roundEven_floor(2)[of m] show ?thesis by simp
qed

lemma roundEven_mono:
  fixes x y :: "'a::floor_ceiling"
  assumes "x \<le> y"
  shows "roundEven x \<le> roundEven y"
proof (cases "\<lfloor>x\<rfloor> = \<lfloor>y\<rfloor>")
  case True
  with assms have "x - of_int \<lfloor>x\<rfloor> \<le> y - of_int \<lfloor>y\<rfloor>" by simp
  with True show ?thesis by (auto simp add: roundEven_def Let_def)
next
  case False
  with assms have "\<lfloor>x\<rfloor> < \<lfloor>y\<rfloor>" using floor_mono[OF assms] by simp
  with roundEven_floor(2)[of x] roundEven_floor(1)[of y] show ?thesis by simp
qed

lemma binade_pos: "(0::'a::floor_ceiling) < binade x"
proof -
  from binade_spec[of x] obtain m where "binade x = tiny * 2 ^ m" by blast
  then show ?thesis using tiny_pos[where 'a='a] by simp
qed

lemma nearest_nonneg:
  fixes x :: "'a::floor_ceiling"
  assumes "0 \<le> x"
  shows "0 \<le> nearest x"
proof -
  have u: "0 < binade x / 2 ^ 52" using binade_pos[of x] by simp
  with assms have "of_int 0 \<le> x / (binade x / 2 ^ 52)" by simp
  then have "0 \<le> roundEven (x / (binade x / 2 ^ 52))" by (rule roundEven_lower)
  with u show ?thesis by (simp add: nearest_def Let_def)
qed

lemma nearest_below:
  fixes x :: "'a::floor_ceiling"
  shows "nearest x \<le> 2 * binade x"
proof -
  let ?u = "binade x / 2 ^ 52"
  have u: "0 < ?u" using binade_pos[of x] by simp
  from binade_spec[of x] have "x < 2 * binade x" by blast
  then have "x / ?u \<le> 2 ^ 53" using binade_pos[of x] by (simp add: field_simps)
  then have "x / ?u \<le> of_int (2 ^ 53)" by simp
  then have "roundEven (x / ?u) \<le> 2 ^ 53" by (rule roundEven_upper)
  then have "(of_int (roundEven (x / ?u)) :: 'a) \<le> of_int (2 ^ 53)" by (simp only: of_int_le_iff)
  then have "of_int (roundEven (x / ?u)) * ?u \<le> of_int (2 ^ 53) * ?u"
    using u by (simp only: mult_le_cancel_right_pos)
  also have "of_int (2 ^ 53) * ?u = 2 * binade x" by simp
  finally show ?thesis by (simp add: nearest_def Let_def)
qed

lemma nearest_above:
  fixes x :: "'a::floor_ceiling"
  assumes "binade x \<le> x"
  shows "binade x \<le> nearest x"
proof -
  let ?u = "binade x / 2 ^ 52"
  have u: "0 < ?u" using binade_pos[of x] by simp
  from assms have "2 ^ 52 \<le> x / ?u" using binade_pos[of x] by (simp add: field_simps)
  then have "of_int (2 ^ 52) \<le> x / ?u" by simp
  then have "2 ^ 52 \<le> roundEven (x / ?u)" by (rule roundEven_lower)
  then have "(of_int (2 ^ 52) :: 'a) \<le> of_int (roundEven (x / ?u))" by (simp only: of_int_le_iff)
  then have "of_int (2 ^ 52) * ?u \<le> of_int (roundEven (x / ?u)) * ?u"
    using u by (simp only: mult_le_cancel_right_pos)
  moreover have "of_int (2 ^ 52) * ?u = binade x" by simp
  ultimately show ?thesis by (simp add: nearest_def Let_def)
qed

lemma nearest_mono:
  fixes x y :: "'a::floor_ceiling"
  assumes "x \<le> y"
  shows "nearest x \<le> nearest y"
proof -
  from binade_spec[of x] obtain a where a: "binade x = tiny * 2 ^ a" "x < 2 * binade x"
    "binade x \<le> x \<or> a = 0" by blast
  from binade_spec[of y] obtain b where b: "binade y = tiny * 2 ^ b" "y < 2 * binade y"
    "binade y \<le> y \<or> b = 0" by blast
  have ab: "a \<le> b"
  proof (cases "a = 0")
    case False
    with a(3) assms b(2) have "binade x < 2 * binade y" by simp
    then have "(tiny::'a) * 2 ^ a < tiny * 2 ^ Suc b" unfolding a(1) b(1) by simp
    then have "a < Suc b" by (simp only: scale_less_iff)
    then show ?thesis by simp
  qed simp
  show ?thesis
  proof (cases "a = b")
    case True
    then have e: "binade x = binade y" using a(1) b(1) by simp
    have u: "0 < binade y / 2 ^ 52" using binade_pos[of y] by simp
    from assms u have "x / (binade y / 2 ^ 52) \<le> y / (binade y / 2 ^ 52)"
      by (simp only: divide_le_cancel) simp
    then have "roundEven (x / (binade y / 2 ^ 52)) \<le> roundEven (y / (binade y / 2 ^ 52))"
      by (rule roundEven_mono)
    then have "(of_int (roundEven (x / (binade y / 2 ^ 52))) :: 'a)
        \<le> of_int (roundEven (y / (binade y / 2 ^ 52)))" by (simp only: of_int_le_iff)
    then have "of_int (roundEven (x / (binade y / 2 ^ 52))) * (binade y / 2 ^ 52)
        \<le> of_int (roundEven (y / (binade y / 2 ^ 52))) * (binade y / 2 ^ 52)"
      using u by (simp only: mult_le_cancel_right_pos)
    then show ?thesis by (simp add: nearest_def Let_def e)
  next
    case False
    with ab have lt: "Suc a \<le> b" by simp
    then have "b \<noteq> 0" by simp
    with b(3) have "binade y \<le> y" by simp
    then have "binade y \<le> nearest y" by (rule nearest_above)
    moreover have "nearest x \<le> 2 * binade x" by (rule nearest_below)
    moreover have "2 * binade x \<le> binade y"
    proof -
      have "(tiny::'a) * 2 ^ Suc a \<le> tiny * 2 ^ b" using lt by (simp only: scale_le_iff)
      then show ?thesis unfolding a(1) b(1) by simp
    qed
    ultimately show ?thesis by simp
  qed
qed

text \<open>
  The rounding computed: with the binade known, \<open>nearest\<close> is one rounding to an integer,
  and the rounding of a quotient of integers is integer arithmetic.
\<close>

lemma nearest_large:
  fixes x :: "'a::floor_ceiling"
  assumes "2 ^ n \<le> x" "x < 2 * 2 ^ n"
  shows "nearest x = of_int (roundEven (x * 2 ^ 52 / 2 ^ n)) * 2 ^ n / 2 ^ 52"
proof -
  have e: "(tiny::'a) * 2 ^ (emin + n) = 2 ^ n"
    unfolding power_add mult.assoc[symmetric] tiny_emin by simp
  have "binade x = tiny * 2 ^ (emin + n)"
    by (rule binade_unique) (use assms in \<open>simp_all only: e simp_thms\<close>)
  then have "binade x = 2 ^ n" unfolding e .
  then show ?thesis by (simp add: nearest_def Let_def)
qed

lemma nearest_small:
  fixes x :: "'a::floor_ceiling"
  assumes "n \<le> emin" "1 \<le> x * 2 ^ n" "x * 2 ^ n < 2"
  shows "nearest x = of_int (roundEven (x * 2 ^ 52 * 2 ^ n)) / (2 ^ 52 * 2 ^ n)"
proof -
  have "(tiny::'a) * 2 ^ (emin - n) * 2 ^ n = tiny * 2 ^ (emin - n + n)"
    unfolding power_add by (simp only: mult.assoc)
  also have "\<dots> = 1" using assms(1) by (simp add: tiny_emin)
  finally have e: "(tiny::'a) * 2 ^ (emin - n) = 1 / 2 ^ n" by (simp add: field_simps)
  have "binade x = tiny * 2 ^ (emin - n)"
    by (rule binade_unique) (use assms(2,3) in \<open>simp_all add: e field_simps\<close>)
  then have "binade x = 1 / 2 ^ n" unfolding e .
  then show ?thesis by (simp add: nearest_def Let_def mult.commute mult.left_commute)
qed

lemma nearest_underflow:
  fixes x :: "'a::floor_ceiling"
  assumes "0 \<le> x" "x < 2 * tiny"
  shows "nearest x = of_int (roundEven (x * 2 ^ (emin + 52))) / 2 ^ (emin + 52)"
proof -
  have "binade x = tiny * 2 ^ 0"
    by (rule binade_unique) (use assms in simp_all)
  then have b: "binade x = tiny" by simp
  have t: "(tiny::'a) / 2 ^ 52 = 1 / 2 ^ (emin + 52)"
    unfolding tiny_def power_add by simp
  have "nearest x = of_int (roundEven (x / (1 / 2 ^ (emin + 52)))) * (1 / 2 ^ (emin + 52))"
    unfolding nearest_def Let_def b t ..
  then show ?thesis by simp
qed

lemma nearest_zero: "nearest (0::'a::floor_ceiling) = 0"
proof -
  have "nearest (0::'a) = of_int (roundEven (0 * 2 ^ (emin + 52) :: 'a)) / 2 ^ (emin + 52)"
    by (rule nearest_underflow) (simp_all add: tiny_pos)
  also have "roundEven (0 * 2 ^ (emin + 52) :: 'a) = 0"
    using roundEven_of_int[of 0, where 'a='a] by simp
  finally show ?thesis by simp
qed

lemma nearest_vanishes:
  fixes x :: "'a::floor_ceiling"
  assumes "0 \<le> x" "x * 2 ^ (emin + 53) < 1"
  shows "nearest x = 0"
proof -
  have p: "(2::'a) ^ (emin + 53) = 2 ^ (emin + 52) * 2" "(2::'a) ^ (emin + 52) = 2 ^ emin * 2 ^ 52"
    unfolding power_add by simp_all
  from assms(2) have h: "x * 2 ^ (emin + 52) < 1 / 2" unfolding p(1) by simp
  have one: "1 \<le> (2::'a) ^ 52" by (rule one_le_power) simp
  have "x * 2 ^ emin * 1 \<le> x * 2 ^ emin * 2 ^ 52"
    by (rule mult_left_mono) (use assms(1) one in simp_all)
  also have "\<dots> = x * 2 ^ (emin + 52)" unfolding p(2) by (simp only: mult.assoc)
  finally have "x * 2 ^ emin < 2" using h by simp
  then have "x < 2 * tiny" unfolding tiny_def by (simp add: field_simps)
  from nearest_underflow[OF assms(1) this]
  have n: "nearest x = of_int (roundEven (x * 2 ^ (emin + 52))) / 2 ^ (emin + 52)" .
  have "0 \<le> x * 2 ^ (emin + 52)" using assms(1) by simp
  with h have "\<lfloor>x * 2 ^ (emin + 52)\<rfloor> = 0" by (simp only: floor_eq_iff) simp
  with h have "roundEven (x * 2 ^ (emin + 52)) = 0" by (simp add: roundEven_def Let_def)
  with n show ?thesis by simp
qed

lemma nearest_of_int:
  assumes "0 \<le> k" "k \<le> 2 ^ 53"
  shows "nearest (of_int k :: 'a::floor_ceiling) = of_int k"
proof (cases "k = 0")
  case True
  then show ?thesis by (simp add: nearest_zero)
next
  case False
  with assms(1) have k1: "(1::'a) \<le> of_int k" by simp
  from up_spec[of 1 "of_int k :: 'a"] k1 obtain n where
    n: "(2::'a) ^ n \<le> of_int k" "(of_int k :: 'a) < 2 * 2 ^ n"
    by auto
  have "(of_int (2 ^ n) :: 'a) \<le> of_int k" using n(1) by simp
  then have kn: "2 ^ n \<le> k" by (simp only: of_int_le_iff)
  with assms(2) have "(2::int) ^ n \<le> 2 ^ 53" by simp
  then have n53: "n \<le> 53" by (simp only: power_le_imp_le_exp[of 2] one_less_numeral_iff semiring_norm)
  note v = nearest_large[OF n]
  show ?thesis
  proof (cases "n = 53")
    case True
    with kn assms(2) have "k = 2 ^ 53" by simp
    then have k: "(of_int k :: 'a) = 2 ^ 53" by simp
    have "roundEven ((2::'a) ^ 53 * 2 ^ 52 / 2 ^ 53) = roundEven (of_int (2 ^ 52) :: 'a)" by simp
    also have "\<dots> = 2 ^ 52" by (rule roundEven_of_int)
    finally show ?thesis using v unfolding k True by simp
  next
    case False
    with n53 have le: "n \<le> 52" by simp
    then have "52 - n + n = 52" by simp
    then have e: "(2::'a) ^ (52 - n) * 2 ^ n = 2 ^ 52" by (simp only: power_add[symmetric])
    have "(of_int k :: 'a) * 2 ^ 52 / 2 ^ n = of_int k * (2 ^ (52 - n) * 2 ^ n) / 2 ^ n"
      by (simp only: e)
    also have "\<dots> = of_int (k * 2 ^ (52 - n))" by simp
    finally have "roundEven ((of_int k :: 'a) * 2 ^ 52 / 2 ^ n) = k * 2 ^ (52 - n)"
      by (simp only: roundEven_of_int)
    with v have "nearest (of_int k :: 'a) = of_int (k * 2 ^ (52 - n)) * 2 ^ n / 2 ^ 52" by simp
    also have "\<dots> = of_int k * (2 ^ (52 - n) * 2 ^ n) / 2 ^ 52" by simp
    also have "\<dots> = of_int k * 2 ^ 52 / 2 ^ 52" by (simp only: e)
    finally show ?thesis by simp
  qed
qed

lemma roundEven_quotient:
  assumes "0 < b"
  shows "roundEven (of_int a / of_int b :: 'a::floor_ceiling) =
     (if 2 * (a mod b) < b then a div b
      else if b < 2 * (a mod b) then a div b + 1
      else if even (a div b) then a div b else a div b + 1)"
proof -
  have f: "\<lfloor>of_int a / of_int b :: 'a\<rfloor> = a div b" by (rule floor_divide_of_int_eq)
  have b0: "(0::'a) < of_int b" using assms by simp
  have "(of_int a :: 'a) = of_int (a div b * b + a mod b)" by simp
  also have "\<dots> = of_int (a div b) * of_int b + of_int (a mod b)" by (simp only: of_int_add of_int_mult)
  finally have "(of_int a :: 'a) / of_int b = of_int (a div b) + of_int (a mod b) / of_int b"
    using b0 by (simp add: field_simps)
  then have d: "(of_int a :: 'a) / of_int b - of_int (a div b) = of_int (a mod b) / of_int b" by simp
  have lt: "(of_int (a mod b) :: 'a) / of_int b < 1 / 2 \<longleftrightarrow> 2 * (a mod b) < b"
  proof -
    have "(of_int (a mod b) :: 'a) / of_int b < 1 / 2 \<longleftrightarrow> (of_int (2 * (a mod b)) :: 'a) < of_int b"
      using b0 by (simp add: field_simps)
    then show ?thesis by (simp only: of_int_less_iff)
  qed
  have gt: "1 / 2 < (of_int (a mod b) :: 'a) / of_int b \<longleftrightarrow> b < 2 * (a mod b)"
  proof -
    have "1 / 2 < (of_int (a mod b) :: 'a) / of_int b \<longleftrightarrow> (of_int b :: 'a) < of_int (2 * (a mod b))"
      using b0 by (simp add: field_simps)
    then show ?thesis by (simp only: of_int_less_iff)
  qed
  show ?thesis unfolding roundEven_def Let_def f d lt gt ..
qed

lemma roundEven_numeral_quotient:
  "roundEven (numeral a / numeral b :: 'a::floor_ceiling) =
     (if 2 * (numeral a mod numeral b) < (numeral b :: int) then numeral a div numeral b
      else if (numeral b :: int) < 2 * (numeral a mod numeral b) then numeral a div numeral b + 1
      else if even (numeral a div numeral b :: int) then numeral a div numeral b
      else numeral a div numeral b + 1)"
  using roundEven_quotient[of "numeral b" "numeral a", where 'a='a] by simp

lemma roundEven_numeral: "roundEven (numeral a :: 'a::floor_ceiling) = numeral a"
  using roundEven_of_int[of "numeral a", where 'a='a] by simp

lemmas binary64_eval = roundEven_numeral_quotient roundEven_numeral

lemma binary64_nonneg: "0 \<le> x \<Longrightarrow> binary64 x = nearest x"
  by (simp add: binary64_def)

lemma binary64_mono:
  fixes x y :: "'a::floor_ceiling"
  assumes "0 \<le> x" "x \<le> y"
  shows "binary64 x \<le> binary64 y"
  using assms nearest_mono[OF assms(2)] by (simp add: binary64_def)

lemma binary64_minus: "binary64 (- x) = - binary64 (x :: 'a::floor_ceiling)"
proof -
  consider "x < 0" | "x = 0" | "0 < x" by force
  then show ?thesis
    by cases (simp_all add: binary64_def nearest_zero)
qed

lemma binary64_of_int:
  assumes "\<bar>k\<bar> \<le> 2 ^ 53"
  shows "binary64 (of_int k :: 'a::floor_ceiling) = of_int k"
proof (cases "0 \<le> k")
  case True
  with assms show ?thesis by (simp add: binary64_def nearest_of_int)
next
  case False
  with assms have "nearest (of_int (- k) :: 'a) = of_int (- k)"
    by (intro nearest_of_int) simp_all
  with False show ?thesis by (simp add: binary64_def)
qed

lemma binary64_below_one:
  fixes r :: "'a::floor_ceiling"
  assumes "0 \<le> r" "r < 1" "binary64 r = r"
  shows "r \<le> 1 - 1 / 2 ^ 53"
proof (cases "r * 2 < 1")
  case True
  then show ?thesis by simp
next
  case False
  then have "1 \<le> r * 2 ^ 1" "r * 2 ^ 1 < 2" using assms(2) by simp_all
  from nearest_small[OF _ this]
  have "nearest r = of_int (roundEven (r * 2 ^ 52 * 2 ^ 1)) / (2 ^ 52 * 2 ^ 1)"
    by (simp add: emin_def)
  with assms(1,3) have e: "r * 2 ^ 53 = of_int (roundEven (r * 2 ^ 52 * 2 ^ 1))"
    by (simp add: binary64_def)
  define k where "k = roundEven (r * 2 ^ 52 * 2 ^ 1)"
  have "r * 2 ^ 53 < of_int (2 ^ 53)" using assms(2) by simp
  then have "(of_int k :: 'a) < of_int (2 ^ 53)" using e by (simp only: k_def)
  then have "k < 2 ^ 53" by (simp only: of_int_less_iff)
  then have "k \<le> 2 ^ 53 - 1" by simp
  then have "(of_int k :: 'a) \<le> of_int (2 ^ 53 - 1)" by (simp only: of_int_le_iff)
  then have "r * 2 ^ 53 \<le> 2 ^ 53 - 1" using e by (simp add: k_def)
  then show ?thesis by (simp add: field_simps)
qed


section \<open>The HTTP client: retry loop and backoff (src/caixa/httpClient.ts)\<close>

text \<open>
  An \<open>HttpResponse\<close> is the status and the body text of one exchange. One call of
  \<open>attemptOnce\<close> either yields a response or throws (a network failure, the abort of the
  timeout, a failure while reading the body); the environment of \<open>request\<close> is therefore
  the outcome of each attempt, by attempt number, and the value \<open>Math.random()\<close> returns
  at each attempt, a binary64 number in \<open>[0, 1)\<close>.
\<close>

record HttpResponse =
  status :: int
  bodyText :: string

datatype outcome = Responded HttpResponse | Threw string

datatype event = Fetch nat | Sleep int

datatype error =
    NoResponse "string option"
  | ExpectedInteger string
  | NoHdnImovInputs
  | SearchFailed int
  | ListPageFailed int
  | DetailPageFailed int string
  | InvalidURL string

text \<open>
  \<open>jitter\<close>, for an integer \<open>ms\<close> (its callers pass the base of the backoff) and the value
  \<open>rnd\<close> of \<open>Math.random()\<close>. The literal \<open>0.2\<close> is the binary64 nearest to 2/10 and the two
  products are rounded; \<open>delta * 2 + 1\<close> and \<open>ms - delta + \<dots>\<close> are sums of integers far below
  \<open>2 ^ 53\<close>, which binary64 computes exactly.
\<close>

definition jitter :: "int \<Rightarrow> real \<Rightarrow> int" where
  "jitter ms rnd =
     (let delta = \<lfloor>binary64 (real_of_int ms * binary64 (2 / 10))\<rfloor>
      in ms - delta + \<lfloor>binary64 (rnd * real_of_int (delta * 2 + 1))\<rfloor>)"

definition isRetryableStatus :: "int \<Rightarrow> bool" where
  "isRetryableStatus s = (s = 429 \<or> (s \<ge> 500 \<and> s \<le> 599))"

text \<open>\<open>Math.min(30_000, 750 * Math.pow(2, attempt))\<close>, the base of both sleeps of the loop.\<close>

definition backoffBase :: "nat \<Rightarrow> int" where
  "backoffBase attempt = min 30000 (750 * 2 ^ attempt)"

text \<open>
  The \<open>for\<close> loop of \<open>request\<close>, from the iteration \<open>attempt\<close> on, with the variables
  \<open>last\<close> (here \<open>last'\<close>) and \<open>lastErr\<close>. It returns what \<open>request\<close> returns (\<open>Inl\<close> is the thrown
  error) and the events of the run in order: \<open>Fetch a\<close> is the call of \<open>attemptOnce\<close> of
  iteration \<open>a\<close>, \<open>Sleep ms\<close> a call of \<open>sleep\<close>.
\<close>

function requestLoop ::
  "int \<Rightarrow> (nat \<Rightarrow> outcome) \<Rightarrow> (nat \<Rightarrow> real) \<Rightarrow> nat \<Rightarrow> HttpResponse option \<Rightarrow> string option
     \<Rightarrow> (error + HttpResponse) \<times> event list" where
  "requestLoop retries attemptOnce rnd attempt last' lastErr =
     (if int attempt \<le> retries then
        (case attemptOnce attempt of
           Responded r \<Rightarrow>
             if \<not> isRetryableStatus (status r) then (Inr r, [Fetch attempt])
             else apsnd (\<lambda>ev. Fetch attempt # Sleep (jitter (backoffBase attempt) (rnd attempt)) # ev)
                    (requestLoop retries attemptOnce rnd (Suc attempt) (Some r) lastErr)
         | Threw err \<Rightarrow>
             apsnd (\<lambda>ev. Fetch attempt # Sleep (jitter (backoffBase attempt) (rnd attempt)) # ev)
               (requestLoop retries attemptOnce rnd (Suc attempt) last' (Some err)))
      else (case last' of
              Some r \<Rightarrow> (Inr r, [])
            | None \<Rightarrow> (Inl (NoResponse lastErr), [])))"
  by pat_completeness auto
termination
  by (relation "measure (\<lambda>(retries, attemptOnce, rnd, attempt, last', lastErr). nat (retries + 1 - int attempt))")
    auto

definition request :: "int \<Rightarrow> (nat \<Rightarrow> outcome) \<Rightarrow> (nat \<Rightarrow> real) \<Rightarrow> (error + HttpResponse) \<times> event list" where
  "request retries attemptOnce rnd = requestLoop retries attemptOnce rnd 0 None None"

fun isFetch :: "event \<Rightarrow> bool" where
  "isFetch (Fetch a) = True"
| "isFetch (Sleep ms) = False"

definition attempts :: "event list \<Rightarrow> nat" where
  "attempts ev = length (filter isFetch ev)"

text \<open>What an attempt produced, if it produced a response.\<close>

fun responseOf :: "outcome \<Rightarrow> HttpResponse option" where
  "responseOf (Responded r) = Some r"
| "responseOf (Threw err) = None"

definition retryableResponse :: "outcome \<Rightarrow> bool" where
  "retryableResponse out = (case out of Responded r \<Rightarrow> isRetryableStatus (status r) | Threw err \<Rightarrow> False)"

definition finalResponse :: "outcome \<Rightarrow> bool" where
  "finalResponse out = (case out of Responded r \<Rightarrow> \<not> isRetryableStatus (status r) | Threw err \<Rightarrow> False)"


subsection \<open>Unfolding the loop\<close>

declare requestLoop.simps [simp del]

lemma requestLoop_stop:
  "\<not> int attempt \<le> retries \<Longrightarrow>
   requestLoop retries a rnd attempt l e =
     (case l of Some r \<Rightarrow> (Inr r, []) | None \<Rightarrow> (Inl (NoResponse e), []))"
  by (subst requestLoop.simps) simp

lemma requestLoop_final:
  "int attempt \<le> retries \<Longrightarrow> a attempt = Responded r \<Longrightarrow> \<not> isRetryableStatus (status r) \<Longrightarrow>
   requestLoop retries a rnd attempt l e = (Inr r, [Fetch attempt])"
  by (subst requestLoop.simps) simp

lemma requestLoop_retry:
  "int attempt \<le> retries \<Longrightarrow> a attempt = Responded r \<Longrightarrow> isRetryableStatus (status r) \<Longrightarrow>
   requestLoop retries a rnd attempt l e =
     apsnd (\<lambda>ev. Fetch attempt # Sleep (jitter (backoffBase attempt) (rnd attempt)) # ev)
       (requestLoop retries a rnd (Suc attempt) (Some r) e)"
  by (subst requestLoop.simps) simp

lemma requestLoop_threw:
  "int attempt \<le> retries \<Longrightarrow> a attempt = Threw err \<Longrightarrow>
   requestLoop retries a rnd attempt l e =
     apsnd (\<lambda>ev. Fetch attempt # Sleep (jitter (backoffBase attempt) (rnd attempt)) # ev)
       (requestLoop retries a rnd (Suc attempt) l (Some err))"
  by (subst requestLoop.simps) simp

lemma requestLoop_attempts_le:
  "attempts (snd (requestLoop retries a rnd attempt l e)) \<le> nat (retries + 1 - int attempt)"
proof (induction retries a rnd attempt l e rule: requestLoop.induct)
  case (1 retries a rnd attempt l e)
  show ?case
  proof (cases "int attempt \<le> retries")
    case False
    then show ?thesis
      by (simp add: requestLoop_stop attempts_def split: option.splits)
  next
    case le: True
    show ?thesis
    proof (cases "a attempt")
      case (Responded r)
      show ?thesis
      proof (cases "isRetryableStatus (status r)")
        case True
        from "1.IH"(1)[OF le Responded] True
        have "attempts (snd (requestLoop retries a rnd (Suc attempt) (Some r) e))
                \<le> nat (retries + 1 - int (Suc attempt))" by simp
        with le Responded True show ?thesis
          by (simp add: requestLoop_retry attempts_def)
      next
        case False
        with le Responded show ?thesis
          by (simp add: requestLoop_final attempts_def)
      qed
    next
      case (Threw err)
      from "1.IH"(2)[OF le Threw]
      have "attempts (snd (requestLoop retries a rnd (Suc attempt) l (Some err)))
                \<le> nat (retries + 1 - int (Suc attempt))" .
      with le Threw show ?thesis
        by (simp add: requestLoop_threw attempts_def)
    qed
  qed
qed

lemma requestLoop_first_final:
  "attempt \<le> k \<Longrightarrow> int k \<le> retries \<Longrightarrow> a k = Responded r \<Longrightarrow> \<not> isRetryableStatus (status r) \<Longrightarrow>
   (\<forall>j. attempt \<le> j \<and> j < k \<longrightarrow> \<not> finalResponse (a j)) \<Longrightarrow>
   fst (requestLoop retries a rnd attempt l e) = Inr r \<and>
   attempts (snd (requestLoop retries a rnd attempt l e)) = Suc (k - attempt) \<and>
   last (snd (requestLoop retries a rnd attempt l e)) = Fetch k"
proof (induction "k - attempt" arbitrary: attempt l e)
  case 0
  then have "attempt = k" by simp
  with 0 show ?case
    by (simp add: requestLoop_final attempts_def)
next
  case (Suc n)
  then have lt: "attempt < k" and le: "int attempt \<le> retries" by auto
  with Suc.prems have nf: "\<not> finalResponse (a attempt)" by simp
  have step: "n = k - Suc attempt" "Suc attempt \<le> k"
    "\<forall>j. Suc attempt \<le> j \<and> j < k \<longrightarrow> \<not> finalResponse (a j)"
    using Suc.hyps(2) Suc.prems lt by auto
  note IH = Suc.hyps(1)[OF step(1) step(2) Suc.prems(2) Suc.prems(3) Suc.prems(4) step(3)]
  have ne: "snd (requestLoop retries a rnd (Suc attempt) l' e') \<noteq> []" for l' e'
    using IH[of l' e'] by (auto simp: attempts_def)
  show ?case
  proof (cases "a attempt")
    case (Responded r')
    with nf have "isRetryableStatus (status r')" by (simp add: finalResponse_def)
    with le Responded IH[of "Some r'" e] ne[of "Some r'" e] lt show ?thesis
      by (simp add: requestLoop_retry attempts_def Suc_diff_Suc)
  next
    case (Threw err)
    with le IH[of l "Some err"] ne[of l "Some err"] lt show ?thesis
      by (simp add: requestLoop_threw attempts_def Suc_diff_Suc)
  qed
qed

lemma requestLoop_throws_iff:
  "(\<exists>err. fst (requestLoop retries a rnd attempt l e) = Inl err) \<longleftrightarrow>
   (l = None \<and> (\<forall>k. attempt \<le> k \<and> int k \<le> retries \<longrightarrow> responseOf (a k) = None))"
proof (induction retries a rnd attempt l e rule: requestLoop.induct)
  case (1 retries a rnd attempt l e)
  show ?case
  proof (cases "int attempt \<le> retries")
    case False
    then have "\<And>k. attempt \<le> k \<Longrightarrow> \<not> int k \<le> retries" by simp
    with False show ?thesis
      by (auto simp add: requestLoop_stop split: option.splits)
  next
    case le: True
    show ?thesis
    proof (cases "a attempt")
      case (Responded r)
      show ?thesis
      proof (cases "isRetryableStatus (status r)")
        case True
        from "1.IH"(1)[OF le Responded] True
        have "\<not> (\<exists>err. fst (requestLoop retries a rnd (Suc attempt) (Some r) e) = Inl err)" by simp
        moreover have "\<not> (\<forall>k. attempt \<le> k \<and> int k \<le> retries \<longrightarrow> responseOf (a k) = None)"
          using le Responded by (auto intro: exI[of _ attempt])
        ultimately show ?thesis using le Responded True
          by (simp add: requestLoop_retry)
      next
        case False
        have "\<not> (\<forall>k. attempt \<le> k \<and> int k \<le> retries \<longrightarrow> responseOf (a k) = None)"
          using le Responded by (auto intro: exI[of _ attempt])
        with le Responded False show ?thesis
          by (simp add: requestLoop_final)
      qed
    next
      case (Threw err)
      have "(\<forall>k. attempt \<le> k \<and> int k \<le> retries \<longrightarrow> responseOf (a k) = None) \<longleftrightarrow>
            (\<forall>k. Suc attempt \<le> k \<and> int k \<le> retries \<longrightarrow> responseOf (a k) = None)"
        using Threw by (metis Suc_leI le_eq_less_or_eq responseOf.simps(2) Suc_leD)
      with "1.IH"(2)[OF le Threw] le Threw show ?thesis
        by (simp add: requestLoop_threw)
    qed
  qed
qed

lemma requestLoop_all_retryable:
  "(\<forall>k. attempt \<le> k \<and> int k \<le> retries \<longrightarrow> retryableResponse (a k)) \<Longrightarrow>
   fst (requestLoop retries a rnd attempt l e) =
     (if int attempt \<le> retries then Inr (the (responseOf (a (nat retries))))
      else (case l of Some r \<Rightarrow> Inr r | None \<Rightarrow> Inl (NoResponse e)))"
proof (induction retries a rnd attempt l e rule: requestLoop.induct)
  case (1 retries a rnd attempt l e)
  show ?case
  proof (cases "int attempt \<le> retries")
    case False
    then show ?thesis
      by (simp add: requestLoop_stop split: option.splits)
  next
    case le: True
    with "1.prems" have "retryableResponse (a attempt)" by simp
    then obtain r where r: "a attempt = Responded r" "isRetryableStatus (status r)"
      by (auto simp: retryableResponse_def split: outcome.splits)
    have "\<forall>k. Suc attempt \<le> k \<and> int k \<le> retries \<longrightarrow> retryableResponse (a k)"
      using "1.prems" by simp
    from "1.IH"(1)[OF le r(1) _ this] r(2)
    have IH: "fst (requestLoop retries a rnd (Suc attempt) (Some r) e) =
      (if int (Suc attempt) \<le> retries then Inr (the (responseOf (a (nat retries)))) else Inr r)"
      by simp
    show ?thesis
    proof (cases "int (Suc attempt) \<le> retries")
      case True
      with IH le r show ?thesis by (simp add: requestLoop_retry)
    next
      case False
      with le have "nat retries = attempt" by simp
      with False IH le r show ?thesis by (simp add: requestLoop_retry)
    qed
  qed
qed

text \<open>
  The base of the backoff is one of seven integers. For each of them the rounded product
  with the literal has the floor of the exact fifth, and the rounded product of a binary64
  number below 1 with \<open>delta * 2 + 1\<close> stays below \<open>delta * 2 + 1\<close>: the largest binary64
  number below 1 is \<open>1 - 2 ^ - 53\<close> and the rounding is monotone.
\<close>

lemma literal_02: "binary64 (2 / 10 :: real) = 3602879701896397 / 2 ^ 54"
  by (simp add: binary64_def nearest_small[of 3] emin_def binary64_eval)

lemma backoffBase_cases:
  "backoffBase a \<in> {750, 1500, 3000, 6000, 12000, 24000, 30000}"
proof (cases "a < 6")
  case True
  then consider "a = 0" | "a = 1" | "a = 2" | "a = 3" | "a = 4" | "a = 5" by linarith
  then show ?thesis by cases (simp_all add: backoffBase_def)
next
  case False
  then have "(2::int) ^ 6 \<le> 2 ^ a" by (intro power_increasing) simp_all
  then show ?thesis by (simp add: backoffBase_def)
qed

lemma delta_exact:
  assumes "b \<in> {750, 1500, 3000, 6000, 12000, 24000, 30000}"
  shows "\<lfloor>binary64 (real_of_int b * binary64 (2 / 10))\<rfloor> = \<lfloor>real_of_int b * (2 / 10)\<rfloor>"
proof -
  have "\<lfloor>binary64 (750 * (3602879701896397 / 2 ^ 54) :: real)\<rfloor> = 150"
    by (simp add: binary64_def nearest_large[of 7] binary64_eval)
  moreover have "\<lfloor>binary64 (1500 * (3602879701896397 / 2 ^ 54) :: real)\<rfloor> = 300"
    by (simp add: binary64_def nearest_large[of 8] binary64_eval)
  moreover have "\<lfloor>binary64 (3000 * (3602879701896397 / 2 ^ 54) :: real)\<rfloor> = 600"
    by (simp add: binary64_def nearest_large[of 9] binary64_eval)
  moreover have "\<lfloor>binary64 (6000 * (3602879701896397 / 2 ^ 54) :: real)\<rfloor> = 1200"
    by (simp add: binary64_def nearest_large[of 10] binary64_eval)
  moreover have "\<lfloor>binary64 (12000 * (3602879701896397 / 2 ^ 54) :: real)\<rfloor> = 2400"
    by (simp add: binary64_def nearest_large[of 11] binary64_eval)
  moreover have "\<lfloor>binary64 (24000 * (3602879701896397 / 2 ^ 54) :: real)\<rfloor> = 4800"
    by (simp add: binary64_def nearest_large[of 12] binary64_eval)
  moreover have "\<lfloor>binary64 (30000 * (3602879701896397 / 2 ^ 54) :: real)\<rfloor> = 6000"
    by (simp add: binary64_def nearest_large[of 12] binary64_eval)
  ultimately show ?thesis using assms unfolding literal_02 by auto
qed

lemma product_below:
  assumes "n \<in> {301, 601, 1201, 2401, 4801, 9601, 12001}"
    and "0 \<le> r" "r < 1" "binary64 r = r"
  shows "0 \<le> \<lfloor>binary64 (r * real_of_int n)\<rfloor>" and "\<lfloor>binary64 (r * real_of_int n)\<rfloor> \<le> n - 1"
proof -
  from assms(1) have n0: "0 \<le> real_of_int n" by auto
  with assms(2) have x0: "0 \<le> r * real_of_int n" by simp
  then have "0 \<le> binary64 (r * real_of_int n)" by (simp add: binary64_def nearest_nonneg)
  then show "0 \<le> \<lfloor>binary64 (r * real_of_int n)\<rfloor>" by simp
  from binary64_below_one[OF assms(2-4)] have "r \<le> 1 - 1 / 2 ^ 53" .
  then have "r * real_of_int n \<le> (1 - 1 / 2 ^ 53) * real_of_int n" using n0 by (rule mult_right_mono)
  from binary64_mono[OF x0 this]
  have m: "binary64 (r * real_of_int n) \<le> binary64 ((1 - 1 / 2 ^ 53) * real_of_int n)" .
  have "binary64 ((1 - 1 / 2 ^ 53) * 301 :: real) < 301"
    by (simp add: binary64_def nearest_large[of 8] binary64_eval)
  moreover have "binary64 ((1 - 1 / 2 ^ 53) * 601 :: real) < 601"
    by (simp add: binary64_def nearest_large[of 9] binary64_eval)
  moreover have "binary64 ((1 - 1 / 2 ^ 53) * 1201 :: real) < 1201"
    by (simp add: binary64_def nearest_large[of 10] binary64_eval)
  moreover have "binary64 ((1 - 1 / 2 ^ 53) * 2401 :: real) < 2401"
    by (simp add: binary64_def nearest_large[of 11] binary64_eval)
  moreover have "binary64 ((1 - 1 / 2 ^ 53) * 4801 :: real) < 4801"
    by (simp add: binary64_def nearest_large[of 12] binary64_eval)
  moreover have "binary64 ((1 - 1 / 2 ^ 53) * 9601 :: real) < 9601"
    by (simp add: binary64_def nearest_large[of 13] binary64_eval)
  moreover have "binary64 ((1 - 1 / 2 ^ 53) * 12001 :: real) < 12001"
    by (simp add: binary64_def nearest_large[of 13] binary64_eval)
  ultimately have "binary64 ((1 - 1 / 2 ^ 53) * real_of_int n) < real_of_int n"
    using assms(1) by auto
  with m have "binary64 (r * real_of_int n) < real_of_int n" by simp
  then have "\<lfloor>binary64 (r * real_of_int n)\<rfloor> < n" by (simp add: floor_less_iff)
  then show "\<lfloor>binary64 (r * real_of_int n)\<rfloor> \<le> n - 1" by simp
qed

lemma jitter_bounds:
  assumes "0 \<le> rnd" "rnd < 1" "binary64 rnd = rnd"
  shows "backoffBase a - \<lfloor>real_of_int (backoffBase a) * (2 / 10)\<rfloor> \<le> jitter (backoffBase a) rnd"
    and "jitter (backoffBase a) rnd \<le> backoffBase a + \<lfloor>real_of_int (backoffBase a) * (2 / 10)\<rfloor>"
proof -
  define b where "b = backoffBase a"
  define delta where "delta = \<lfloor>real_of_int b * (2 / 10)\<rfloor>"
  have bc: "b \<in> {750, 1500, 3000, 6000, 12000, 24000, 30000}"
    unfolding b_def by (rule backoffBase_cases)
  have d: "\<lfloor>binary64 (real_of_int b * binary64 (2 / 10))\<rfloor> = delta"
    unfolding delta_def by (rule delta_exact[OF bc])
  have "delta * 2 + 1 \<in> {301, 601, 1201, 2401, 4801, 9601, 12001}"
    using bc unfolding delta_def by auto
  note p = product_below[OF this assms]
  have j: "jitter b rnd = b - delta + \<lfloor>binary64 (rnd * real_of_int (delta * 2 + 1))\<rfloor>"
    unfolding jitter_def Let_def d ..
  show "backoffBase a - \<lfloor>real_of_int (backoffBase a) * (2 / 10)\<rfloor> \<le> jitter (backoffBase a) rnd"
    using p(1) unfolding b_def[symmetric] delta_def[symmetric] j by simp
  show "jitter (backoffBase a) rnd \<le> backoffBase a + \<lfloor>real_of_int (backoffBase a) * (2 / 10)\<rfloor>"
    using p(2) unfolding b_def[symmetric] delta_def[symmetric] j by simp
qed

lemma jitter_examples:
  "jitter 750 (1 / 2) = 750" "jitter 1500 (1 / 2) = 1500"
  "jitter 750 (1526136750803291 / 2 ^ 53) = 651"
proof -
  have d: "\<lfloor>binary64 (real_of_int 750 * binary64 (2 / 10))\<rfloor> = 150"
    "\<lfloor>binary64 (real_of_int 1500 * binary64 (2 / 10))\<rfloor> = 300"
    unfolding literal_02
    by (simp_all add: binary64_def nearest_large[of 7] nearest_large[of 8] binary64_eval)
  show "jitter 750 (1 / 2) = 750"
    unfolding jitter_def Let_def d by (simp add: binary64_def nearest_large[of 7] binary64_eval)
  show "jitter 1500 (1 / 2) = 1500"
    unfolding jitter_def Let_def d by (simp add: binary64_def nearest_large[of 8] binary64_eval)
  show "jitter 750 (1526136750803291 / 2 ^ 53) = 651"
    unfolding jitter_def Let_def d by (simp add: binary64_def nearest_large[of 5] binary64_eval)
qed

lemma backoffBase_pos: "0 \<le> backoffBase a"
  by (simp add: backoffBase_def)

lemma requestLoop_events:
  "i < length (snd (requestLoop retries a rnd attempt l e)) \<Longrightarrow>
   snd (requestLoop retries a rnd attempt l e) ! i =
     (if even i then Fetch (attempt + i div 2)
      else Sleep (jitter (backoffBase (attempt + i div 2)) (rnd (attempt + i div 2))))"
proof (induction retries a rnd attempt l e arbitrary: i rule: requestLoop.induct)
  case (1 retries a rnd attempt l e)
  show ?case
  proof (cases "int attempt \<le> retries")
    case False
    with "1.prems" show ?thesis
      by (simp add: requestLoop_stop split: option.splits)
  next
    case le: True
    have rec: ?thesis
      if eq: "requestLoop retries a rnd attempt l e =
           apsnd (\<lambda>ev. Fetch attempt # Sleep (jitter (backoffBase attempt) (rnd attempt)) # ev)
             (requestLoop retries a rnd (Suc attempt) l' e')"
        and IH: "\<And>j. j < length (snd (requestLoop retries a rnd (Suc attempt) l' e')) \<Longrightarrow>
           snd (requestLoop retries a rnd (Suc attempt) l' e') ! j =
             (if even j then Fetch (Suc attempt + j div 2)
              else Sleep (jitter (backoffBase (Suc attempt + j div 2)) (rnd (Suc attempt + j div 2))))"
      for l' e'
    proof (cases i)
      case 0
      then show ?thesis by (simp add: eq)
    next
      case (Suc i1)
      show ?thesis
      proof (cases i1)
        case 0
        with Suc show ?thesis by (simp add: eq)
      next
        case (Suc j)
        with \<open>i = Suc i1\<close> have i: "i = Suc (Suc j)" by simp
        with "1.prems" eq have "j < length (snd (requestLoop retries a rnd (Suc attempt) l' e'))"
          by simp
        from IH[OF this] i show ?thesis by (simp add: eq)
      qed
    qed
    show ?thesis
    proof (cases "a attempt")
      case (Responded r)
      show ?thesis
      proof (cases "isRetryableStatus (status r)")
        case True
        show ?thesis
          by (rule rec[OF requestLoop_retry[where a=a and attempt=attempt, OF le Responded True]])
             (rule "1.IH"(1)[OF le Responded], simp add: True)
      next
        case False
        with le Responded "1.prems" show ?thesis
          by (simp add: requestLoop_final)
      qed
    next
      case (Threw err)
      show ?thesis
        by (rule rec[OF requestLoop_threw[where a=a and attempt=attempt, OF le Threw]]) (rule "1.IH"(2)[OF le Threw])
    qed
  qed
qed


subsection \<open>Three servers to run the loop on\<close>

text \<open>
  A server whose first exchange times out, whose second answers 503 and whose later ones
  answer 200; one that always answers 429; one that never answers.
\<close>

definition flakyServer :: "nat \<Rightarrow> outcome" where
  "flakyServer k =
     (if k = 0 then Threw ''timeout''
      else if k = 1 then Responded \<lparr>status = 503, bodyText = ''busy''\<rparr>
      else Responded \<lparr>status = 200, bodyText = ''ok''\<rparr>)"

definition busyServer :: "nat \<Rightarrow> outcome" where
  "busyServer k = Responded \<lparr>status = 429, bodyText = replicate k CHR ''x''\<rparr>"

definition deadServer :: "nat \<Rightarrow> outcome" where
  "deadServer k = Threw ''ECONNRESET''"

subsection \<open>The retry policy\<close>

text \<open>
  C1. For every request, \<open>HttpClient.request\<close> makes at most \<open>retries + 1\<close> attempts (for
  a count \<open>retries \<ge> 0\<close>); the first response whose status is not retryable (a status other
  than 429 and outside 500..599) is returned at once, the call of \<open>attemptOnce\<close> that
  produced it being the last event of the run; when every attempt yields a response with
  a retryable status the last of them is returned; and the request throws exactly when
  no attempt produced a response.
\<close>

theorem request_attempts_and_result:
  "(0 \<le> retries \<longrightarrow> int (attempts (snd (request retries attemptOnce rnd))) \<le> retries + 1) \<and>
   (\<forall>k r. int k \<le> retries \<and> attemptOnce k = Responded r \<and> \<not> isRetryableStatus (status r) \<and>
          (\<forall>j<k. \<not> finalResponse (attemptOnce j)) \<longrightarrow>
      fst (request retries attemptOnce rnd) = Inr r \<and>
      attempts (snd (request retries attemptOnce rnd)) = Suc k \<and>
      last (snd (request retries attemptOnce rnd)) = Fetch k) \<and>
   (0 \<le> retries \<and> (\<forall>k. int k \<le> retries \<longrightarrow> retryableResponse (attemptOnce k)) \<longrightarrow>
      fst (request retries attemptOnce rnd) = Inr (the (responseOf (attemptOnce (nat retries))))) \<and>
   ((\<exists>err. fst (request retries attemptOnce rnd) = Inl err) \<longleftrightarrow>
      (\<forall>k. int k \<le> retries \<longrightarrow> responseOf (attemptOnce k) = None))"
proof (intro conjI allI impI)
  assume "0 \<le> retries"
  with requestLoop_attempts_le[of retries attemptOnce rnd 0 None None]
  show "int (attempts (snd (request retries attemptOnce rnd))) \<le> retries + 1"
    by (simp add: request_def)
next
  fix k r
  assume h: "int k \<le> retries \<and> attemptOnce k = Responded r \<and> \<not> isRetryableStatus (status r) \<and>
          (\<forall>j<k. \<not> finalResponse (attemptOnce j))"
  then have "\<forall>j. 0 \<le> j \<and> j < k \<longrightarrow> \<not> finalResponse (attemptOnce j)" by simp
  with h requestLoop_first_final[of 0 k retries attemptOnce r rnd None None]
  have *: "fst (request retries attemptOnce rnd) = Inr r \<and>
      attempts (snd (request retries attemptOnce rnd)) = Suc k \<and>
      last (snd (request retries attemptOnce rnd)) = Fetch k"
    by (simp add: request_def)
  from * show "fst (request retries attemptOnce rnd) = Inr r" by simp
  from * show "attempts (snd (request retries attemptOnce rnd)) = Suc k" by simp
  from * show "last (snd (request retries attemptOnce rnd)) = Fetch k" by simp
next
  assume h: "0 \<le> retries \<and> (\<forall>k. int k \<le> retries \<longrightarrow> retryableResponse (attemptOnce k))"
  then have "\<forall>k. 0 \<le> k \<and> int k \<le> retries \<longrightarrow> retryableResponse (attemptOnce k)" by simp
  from requestLoop_all_retryable[OF this, of rnd None None] h
  show "fst (request retries attemptOnce rnd) = Inr (the (responseOf (attemptOnce (nat retries))))"
    by (simp add: request_def)
next
  show "(\<exists>err. fst (request retries attemptOnce rnd) = Inl err) \<longleftrightarrow>
      (\<forall>k. int k \<le> retries \<longrightarrow> responseOf (attemptOnce k) = None)"
    using requestLoop_throws_iff[of retries attemptOnce rnd 0 None None]
    by (simp add: request_def)
qed

theorem request_attempts_and_result_witness:
  "fst (request 4 flakyServer (\<lambda>a. 1 / 2)) = Inr \<lparr>status = 200, bodyText = ''ok''\<rparr> \<and>
   attempts (snd (request 4 flakyServer (\<lambda>a. 1 / 2))) = 3 \<and>
   last (snd (request 4 flakyServer (\<lambda>a. 1 / 2))) = Fetch 2 \<and>
   fst (request 2 busyServer (\<lambda>a. 0)) = Inr \<lparr>status = 429, bodyText = ''xx''\<rparr> \<and>
   attempts (snd (request 2 busyServer (\<lambda>a. 0))) \<le> 3 \<and>
   (\<exists>err. fst (request 1 deadServer (\<lambda>a. 0)) = Inl err)"
proof -
  have nf: "\<forall>j<2. \<not> finalResponse (flakyServer j)"
    by (simp add: less_Suc_eq numeral_2_eq_2 flakyServer_def finalResponse_def isRetryableStatus_def)
  have fin: "int 2 \<le> 4 \<and> flakyServer 2 = Responded \<lparr>status = 200, bodyText = ''ok''\<rparr> \<and>
      \<not> isRetryableStatus (status \<lparr>status = 200, bodyText = ''ok''\<rparr>)"
    by (simp add: flakyServer_def isRetryableStatus_def)
  have busy: "(0::int) \<le> 2 \<and> (\<forall>k. int k \<le> 2 \<longrightarrow> retryableResponse (busyServer k))"
    by (simp add: busyServer_def retryableResponse_def isRetryableStatus_def)
  have dead: "\<forall>k. int k \<le> 1 \<longrightarrow> responseOf (deadServer k) = None"
    by (simp add: deadServer_def)
  note A = request_attempts_and_result[of 4 flakyServer "\<lambda>a. 1 / 2"]
  note B = request_attempts_and_result[of 2 busyServer "\<lambda>a. 0"]
  note C = request_attempts_and_result[of 1 deadServer "\<lambda>a. 0"]
  from A fin nf have
    "fst (request 4 flakyServer (\<lambda>a. 1 / 2)) = Inr \<lparr>status = 200, bodyText = ''ok''\<rparr> \<and>
     attempts (snd (request 4 flakyServer (\<lambda>a. 1 / 2))) = Suc 2 \<and>
     last (snd (request 4 flakyServer (\<lambda>a. 1 / 2))) = Fetch 2"
    by blast
  moreover from B busy have
    "fst (request 2 busyServer (\<lambda>a. 0)) = Inr (the (responseOf (busyServer (nat 2))))"
    by blast
  moreover from B have "int (attempts (snd (request 2 busyServer (\<lambda>a. 0)))) \<le> 2 + 1"
    by simp
  moreover from C dead have "\<exists>err. fst (request 1 deadServer (\<lambda>a. 0)) = Inl err"
    by blast
  ultimately show ?thesis
    by (simp add: busyServer_def numeral_2_eq_2 numeral_3_eq_3)
qed

subsection \<open>The backoff between attempts\<close>

text \<open>
  C6. The events of a request alternate: position \<open>2 * a\<close> is attempt \<open>a\<close> and position
  \<open>2 * a + 1\<close>, the only event between attempt \<open>a\<close> and attempt \<open>a + 1\<close>, is a sleep of
  \<open>jitter base\<close> milliseconds, where \<open>base\<close> is \<open>750 * 2 ^ a\<close> capped at 30000. Whenever
  \<open>Math.random()\<close> is a binary64 number in \<open>[0, 1)\<close> the slept value, computed in binary64
  arithmetic, lies between \<open>base - floor (0.2 * base)\<close> and \<open>base + floor (0.2 * base)\<close>,
  bounds included, the floor being that of the exact fifth of \<open>base\<close>.
\<close>

theorem backoff_between_attempts:
  assumes "\<forall>a. 0 \<le> rnd a \<and> rnd a < 1 \<and> binary64 (rnd a) = rnd a"
    and "i < length (snd (request retries attemptOnce rnd))"
  shows "(even i \<longrightarrow> snd (request retries attemptOnce rnd) ! i = Fetch (i div 2)) \<and>
    (odd i \<longrightarrow>
       (\<exists>ms. snd (request retries attemptOnce rnd) ! i = Sleep ms \<and>
          ms = jitter (backoffBase (i div 2)) (rnd (i div 2)) \<and>
          backoffBase (i div 2) = min 30000 (750 * 2 ^ (i div 2)) \<and>
          backoffBase (i div 2) - \<lfloor>real_of_int (backoffBase (i div 2)) * (2 / 10)\<rfloor> \<le> ms \<and>
          ms \<le> backoffBase (i div 2) + \<lfloor>real_of_int (backoffBase (i div 2)) * (2 / 10)\<rfloor>))"
proof -
  have ev: "snd (request retries attemptOnce rnd) ! i =
     (if even i then Fetch (i div 2)
      else Sleep (jitter (backoffBase (i div 2)) (rnd (i div 2))))"
    using requestLoop_events[of i retries attemptOnce rnd 0 None None] assms(2)
    by (simp add: request_def)
  have r: "0 \<le> rnd (i div 2)" "rnd (i div 2) < 1" "binary64 (rnd (i div 2)) = rnd (i div 2)"
    using assms(1) by simp_all
  note jb = jitter_bounds[OF r, of "i div 2"]
  have b: "backoffBase (i div 2) = min 30000 (750 * 2 ^ (i div 2))" by (simp add: backoffBase_def)
  show ?thesis
    using ev jb b by simp
qed

text \<open>
  A run with \<open>Math.random()\<close> always 1/2, and one with a value at which the rounded product
  reaches 51 where the exact product is below it: the sleep is of 651 milliseconds.
\<close>

theorem backoff_between_attempts_witness:
  "snd (request 4 flakyServer (\<lambda>a. 1 / 2)) ! 1 = Sleep 750 \<and>
   snd (request 4 flakyServer (\<lambda>a. 1 / 2)) ! 2 = Fetch 1 \<and>
   snd (request 4 flakyServer (\<lambda>a. 1 / 2)) ! 3 = Sleep 1500 \<and>
   length (snd (request 4 flakyServer (\<lambda>a. 1 / 2))) = 5 \<and>
   snd (request 4 flakyServer (\<lambda>a. 1526136750803291 / 2 ^ 53)) ! 1 = Sleep 651 \<and>
   \<lfloor>(1526136750803291 / 2 ^ 53) * (301 :: real)\<rfloor> = 50"
proof -
  have len: "length (snd (request 4 flakyServer rnd)) = 5" for rnd
    by (simp add: request_def requestLoop.simps flakyServer_def isRetryableStatus_def)
  have h: "binary64 (1 / 2 :: real) = 1 / 2"
    by (simp add: binary64_def nearest_small[of 1] emin_def binary64_eval)
  have q: "binary64 (1526136750803291 / 2 ^ 53 :: real) = 1526136750803291 / 2 ^ 53"
    by (simp add: binary64_def nearest_small[of 3] emin_def binary64_eval)
  have rnd: "\<forall>a::nat. (0::real) \<le> 1 / 2 \<and> (1 / 2 :: real) < 1 \<and> binary64 (1 / 2 :: real) = 1 / 2"
    using h by simp
  have rnq: "\<forall>a::nat. (0::real) \<le> 1526136750803291 / 2 ^ 53 \<and>
      (1526136750803291 / 2 ^ 53 :: real) < 1 \<and>
      binary64 (1526136750803291 / 2 ^ 53 :: real) = 1526136750803291 / 2 ^ 53"
    using q by simp
  have fl: "\<lfloor>(1526136750803291 / 2 ^ 53) * (301 :: real)\<rfloor> = 50" by simp
  from backoff_between_attempts[of "\<lambda>a. 1 / 2" 1 4 flakyServer, OF rnd]
       backoff_between_attempts[of "\<lambda>a. 1 / 2" 2 4 flakyServer, OF rnd]
       backoff_between_attempts[of "\<lambda>a. 1 / 2" 3 4 flakyServer, OF rnd]
       backoff_between_attempts[of "\<lambda>a. 1526136750803291 / 2 ^ 53" 1 4 flakyServer, OF rnq]
       len jitter_examples fl
  show ?thesis
    by (auto simp add: backoffBase_def)
qed


section \<open>The rate limiter (src/caixa/httpClient.ts)\<close>














section \<open>JavaScript strings and numbers\<close>

text \<open>
  Strings are sequences of 8-bit characters, read as the code units 0 to 255. In that
  range the characters \<open>trim\<close> strips, which are also the characters \<open>\s\<close> matches
  and the white space \<open>Number\<close> skips, are TAB, LF, VT, FF, CR, SPACE and NBSP.
\<close>

definition isWhiteSpace :: "char \<Rightarrow> bool" where
  "isWhiteSpace c = (of_char c \<in> {9, 10, 11, 12, 13, 32, 160 :: nat})"

definition trim :: "string \<Rightarrow> string" where
  "trim s = rev (dropWhile isWhiteSpace (rev (dropWhile isWhiteSpace s)))"

definition isDigit :: "char \<Rightarrow> bool" where
  "isDigit c = (c \<in> set ''0123456789'')"

definition digitVal :: "char \<Rightarrow> nat" where
  "digitVal c = of_char c - 48"

definition digitsValue :: "string \<Rightarrow> nat" where
  "digitsValue s = foldl (\<lambda>n c. 10 * n + digitVal c) 0 s"

text \<open>
  A JavaScript number is NaN, an infinity, or finite. \<open>Num v\<close> stands for the binary64
  value nearest to the rational \<open>v\<close>: the rounding of a finite value to 53 bits is not
  computed, the overflow of a value to an infinity is (a value at or beyond
  \<open>2 ^ 1024 - 2 ^ 970\<close> rounds to an infinity). \<open>Number\<close> applied to a string follows the
  grammar \<open>StringNumericLiteral\<close> of ECMA-262: optional white space around nothing (the
  value 0) or around a decimal literal (optional sign; \<open>Infinity\<close>, or digits with an
  optional fraction and an optional exponent) or a hexadecimal, octal or binary integer
  literal; every other string is NaN. \<open>Number.isInteger\<close> is decided on \<open>v\<close>.
\<close>

datatype jsnum = NaN | PosInfinity | NegInfinity | Num rat

definition overflowThreshold :: rat where
  "overflowThreshold = 2 ^ 1024 - 2 ^ 970"

definition roundMV :: "rat \<Rightarrow> jsnum" where
  "roundMV v = (if v \<ge> overflowThreshold then PosInfinity else Num v)"

definition signedInteger :: "string \<Rightarrow> int option" where
  "signedInteger s =
     (case s of
        [] \<Rightarrow> None
      | c # cs \<Rightarrow>
          if c = CHR ''+'' then (if cs \<noteq> [] \<and> list_all isDigit cs then Some (int (digitsValue cs)) else None)
          else if c = CHR ''-'' then (if cs \<noteq> [] \<and> list_all isDigit cs then Some (- int (digitsValue cs)) else None)
          else if list_all isDigit s then Some (int (digitsValue s)) else None)"

definition exponentPart :: "string \<Rightarrow> int option" where
  "exponentPart s =
     (case s of
        [] \<Rightarrow> Some 0
      | c # cs \<Rightarrow> if c = CHR ''e'' \<or> c = CHR ''E'' then signedInteger cs else None)"

definition strUnsignedDecimalLiteral :: "string \<Rightarrow> jsnum" where
  "strUnsignedDecimalLiteral s =
     (if s = ''Infinity'' then PosInfinity
      else
        let ip = takeWhile isDigit s;
            r1 = dropWhile isDigit s;
            dot = (r1 \<noteq> [] \<and> hd r1 = CHR ''.'');
            fp = (if dot then takeWhile isDigit (tl r1) else []);
            r2 = (if dot then dropWhile isDigit (tl r1) else r1)
        in if ip = [] \<and> fp = [] then NaN
           else (case exponentPart r2 of
                   None \<Rightarrow> NaN
                 | Some ex \<Rightarrow>
                     roundMV (of_nat (digitsValue (ip @ fp)) / 10 ^ length fp * 10 powi ex)))"

definition negate :: "jsnum \<Rightarrow> jsnum" where
  "negate n = (case n of NaN \<Rightarrow> NaN | PosInfinity \<Rightarrow> NegInfinity | NegInfinity \<Rightarrow> PosInfinity | Num v \<Rightarrow> Num (- v))"

definition strDecimalLiteral :: "string \<Rightarrow> jsnum" where
  "strDecimalLiteral s =
     (case s of
        [] \<Rightarrow> NaN
      | c # cs \<Rightarrow>
          if c = CHR ''+'' then strUnsignedDecimalLiteral cs
          else if c = CHR ''-'' then negate (strUnsignedDecimalLiteral cs)
          else strUnsignedDecimalLiteral s)"

definition radixDigit :: "nat \<Rightarrow> char \<Rightarrow> nat option" where
  "radixDigit radix c =
     (let d = (if isDigit c then Some (digitVal c)
               else if c \<in> set ''abcdef'' then Some (of_char c - 87)
               else if c \<in> set ''ABCDEF'' then Some (of_char c - 55)
               else None)
      in case d of None \<Rightarrow> None | Some v \<Rightarrow> if v < radix then Some v else None)"

definition radixValue :: "nat \<Rightarrow> string \<Rightarrow> jsnum" where
  "radixValue radix s =
     (if s \<noteq> [] \<and> list_all (\<lambda>c. radixDigit radix c \<noteq> None) s
      then roundMV (of_nat (foldl (\<lambda>n c. radix * n + the (radixDigit radix c)) 0 s))
      else NaN)"

definition strNumericLiteral :: "string \<Rightarrow> jsnum" where
  "strNumericLiteral s =
     (case s of
        z # x # cs \<Rightarrow>
          if z = CHR ''0'' \<and> (x = CHR ''x'' \<or> x = CHR ''X'') then radixValue 16 cs
          else if z = CHR ''0'' \<and> (x = CHR ''o'' \<or> x = CHR ''O'') then radixValue 8 cs
          else if z = CHR ''0'' \<and> (x = CHR ''b'' \<or> x = CHR ''B'') then radixValue 2 cs
          else strDecimalLiteral s
      | _ \<Rightarrow> strDecimalLiteral s)"

definition Number :: "string \<Rightarrow> jsnum" where
  "Number s = (let t = trim s in if t = [] then Num 0 else strNumericLiteral t)"

definition isFinite :: "jsnum \<Rightarrow> bool" where
  "isFinite n = (case n of Num v \<Rightarrow> True | _ \<Rightarrow> False)"

definition isInteger :: "jsnum \<Rightarrow> bool" where
  "isInteger n = (case n of Num v \<Rightarrow> of_int \<lfloor>v\<rfloor> = v | _ \<Rightarrow> False)"


section \<open>Brazilian number formats (src/models.ts)\<close>

text \<open>\<open>s.replace(",", ".")\<close>: a string pattern replaces the first occurrence only.\<close>

fun replaceFirstComma :: "string \<Rightarrow> string" where
  "replaceFirstComma [] = []"
| "replaceFirstComma (c # cs) = (if c = CHR '','' then CHR ''.'' # cs else c # replaceFirstComma cs)"

definition parseBrazilianNumber :: "string \<Rightarrow> jsnum option" where
  "parseBrazilianNumber raw =
     (let trimmed = trim raw in
      if trimmed = [] then None
      else
        let normalized = replaceFirstComma (filter (\<lambda>c. c \<noteq> CHR ''.'') trimmed);
            n = Number normalized
        in if isFinite n then Some n else None)"

text \<open>
  \<open>raw.replace(/R\$\s*/i, "")\<close>: the leftmost place where \<open>R\<close> or \<open>r\<close> is followed by
  \<open>$\<close> is deleted together with the white space after it.
\<close>

fun removeRS :: "string \<Rightarrow> string" where
  "removeRS (c # d # cs) =
     (if (c = CHR ''R'' \<or> c = CHR ''r'') \<and> d = CHR ''$'' then dropWhile isWhiteSpace cs
      else c # removeRS (d # cs))"
| "removeRS cs = cs"

definition parseBRL :: "string \<Rightarrow> jsnum option" where
  "parseBRL raw = (let cleaned = trim (removeRS raw) in parseBrazilianNumber cleaned)"

text \<open>
  The words of the specification: a string of decimal digit groups separated by \<open>.\<close> with at
  most one \<open>,\<close> (read here as any string of digits, dots and at most one comma that has a
  digit), the number obtained by deleting the dots and reading the comma as the decimal
  point, and a string with its leading \<open>R$\<close> and the white space around removed.
\<close>

definition spec_digitGroups :: "string \<Rightarrow> bool" where
  "spec_digitGroups s =
     (list_all (\<lambda>c. isDigit c \<or> c = CHR ''.'' \<or> c = CHR '','') s \<and>
      list_ex isDigit s \<and> count_list s CHR '','' \<le> 1)"

definition spec_decimalValue :: "string \<Rightarrow> rat" where
  "spec_decimalValue s =
     (let t = filter (\<lambda>c. c \<noteq> CHR ''.'') s;
          ip = takeWhile (\<lambda>c. c \<noteq> CHR '','') t;
          fp = drop 1 (dropWhile (\<lambda>c. c \<noteq> CHR '','') t)
      in of_nat (digitsValue (ip @ fp)) / 10 ^ length fp)"

definition spec_stripLeadingRS :: "string \<Rightarrow> string" where
  "spec_stripLeadingRS raw =
     (let t = trim raw in if take 2 t = ''R$'' then trim (drop 2 t) else t)"


subsection \<open>Facts about trimming\<close>

lemma dropWhile_id: "xs = [] \<or> \<not> P (hd xs) \<Longrightarrow> dropWhile P xs = xs"
  by (cases xs) auto

lemma trim_id: "s = [] \<or> (\<not> isWhiteSpace (hd s) \<and> \<not> isWhiteSpace (last s)) \<Longrightarrow> trim s = s"
proof (cases "s = []")
  case True
  then show ?thesis by (simp add: trim_def)
next
  case False
  assume "s = [] \<or> (\<not> isWhiteSpace (hd s) \<and> \<not> isWhiteSpace (last s))"
  with False have h: "\<not> isWhiteSpace (hd s)" "\<not> isWhiteSpace (last s)" by simp_all
  from h(1) have 1: "dropWhile isWhiteSpace s = s" by (simp add: dropWhile_id)
  from h(2) False have "\<not> isWhiteSpace (hd (rev s))" by (simp add: hd_rev)
  then have 2: "dropWhile isWhiteSpace (rev s) = rev s" by (simp add: dropWhile_id)
  show ?thesis by (simp add: trim_def 1 2)
qed

lemma trim_ends: "trim s = [] \<or> (\<not> isWhiteSpace (hd (trim s)) \<and> \<not> isWhiteSpace (last (trim s)))"
proof (cases "trim s = []")
  case True
  then show ?thesis by simp
next
  case False
  define a where "a = dropWhile isWhiteSpace s"
  define b where "b = dropWhile isWhiteSpace (rev a)"
  have t: "trim s = rev b" by (simp add: trim_def a_def b_def)
  with False have bne: "b \<noteq> []" by simp
  then have lastb: "\<not> isWhiteSpace (hd b)" unfolding b_def by (rule hd_dropWhile)
  from bne have ane: "a \<noteq> []" by (auto simp: b_def)
  then have hda: "\<not> isWhiteSpace (hd a)" unfolding a_def by (rule hd_dropWhile)
  have "rev a = takeWhile isWhiteSpace (rev a) @ b"
    by (simp add: b_def)
  then obtain pre where pre: "rev a = pre @ b" ..
  then have "a = rev b @ rev pre" by (metis rev_append rev_rev_ident)
  with bne have "hd a = hd (rev b)" by simp
  with hda lastb bne t show ?thesis by (simp add: last_rev)
qed

lemma trim_idem: "trim (trim s) = trim s"
  using trim_ends[of s] by (rule trim_id)

lemma trim_blank: "list_all isWhiteSpace s \<Longrightarrow> trim s = []"
proof -
  assume "list_all isWhiteSpace s"
  then have h: "dropWhile isWhiteSpace s = []" by (induction s) auto
  show ?thesis unfolding trim_def h by simp
qed

lemma count_dropWhile: "\<not> P c \<Longrightarrow> count_list (dropWhile P s) c = count_list s c"
  by (induction s) auto

lemma count_trim: "\<not> isWhiteSpace c \<Longrightarrow> count_list (trim s) c = count_list s c"
  by (simp add: trim_def count_dropWhile)

lemma count_filter: "P c \<Longrightarrow> count_list (filter P s) c = count_list s c"
  by (induction s) auto

lemma count_replaceFirstComma:
  "count_list (replaceFirstComma s) CHR '','' = count_list s CHR '','' - 1"
  by (induction s) auto

lemma replaceFirstComma_none: "CHR '','' \<notin> set s \<Longrightarrow> replaceFirstComma s = s"
  by (induction s) auto

lemma replaceFirstComma_first:
  "CHR '','' \<notin> set ip \<Longrightarrow> replaceFirstComma (ip @ CHR '','' # fp) = ip @ CHR ''.'' # fp"
  by (induction ip) auto


subsection \<open>Facts about \<open>Number\<close>\<close>

lemma digit_not_space: "isDigit c \<Longrightarrow> \<not> isWhiteSpace c"
  by (auto simp: isDigit_def isWhiteSpace_def)

lemma dot_not_space: "\<not> isWhiteSpace CHR ''.''"
  by (simp add: isWhiteSpace_def)

lemma comma_not_digit: "\<not> isDigit CHR '',''"
  by (simp add: isDigit_def)

lemma digits_no_comma: "list_all isDigit s \<Longrightarrow> CHR '','' \<notin> set s"
  using comma_not_digit by (auto simp: list_all_iff)

lemma signedInteger_no_comma:
  assumes "signedInteger s = Some v"
  shows "CHR '','' \<notin> set s"
proof (cases s)
  case Nil
  then show ?thesis by simp
next
  case (Cons c cs)
  show ?thesis
  proof (cases "c = CHR ''+'' \<or> c = CHR ''-''")
    case True
    with assms Cons have "list_all isDigit cs"
      by (simp add: signedInteger_def split: if_splits)
    then have "CHR '','' \<notin> set cs" by (rule digits_no_comma)
    with True Cons show ?thesis by auto
  next
    case False
    with assms Cons have "list_all isDigit s"
      by (simp add: signedInteger_def split: if_splits)
    then show ?thesis by (rule digits_no_comma)
  qed
qed

lemma exponentPart_no_comma:
  assumes "exponentPart s = Some v"
  shows "CHR '','' \<notin> set s"
proof (cases s)
  case Nil
  then show ?thesis by simp
next
  case (Cons c cs)
  with assms have c: "c = CHR ''e'' \<or> c = CHR ''E''" and "signedInteger cs = Some v"
    by (simp_all add: exponentPart_def split: if_splits)
  then have "CHR '','' \<notin> set cs" by (simp add: signedInteger_no_comma)
  with c Cons show ?thesis by auto
qed

lemma takeWhile_digits_no_comma: "CHR '','' \<notin> set (takeWhile isDigit s)"
  using set_takeWhileD[of "CHR '',''" isDigit s] comma_not_digit by blast

lemma strUnsignedDecimalLiteral_unfold:
  "s \<noteq> ''Infinity'' \<Longrightarrow>
   strUnsignedDecimalLiteral s =
     (if takeWhile isDigit s = [] \<and>
         (if dropWhile isDigit s \<noteq> [] \<and> hd (dropWhile isDigit s) = CHR ''.''
          then takeWhile isDigit (tl (dropWhile isDigit s)) else []) = []
      then NaN
      else (case exponentPart
                  (if dropWhile isDigit s \<noteq> [] \<and> hd (dropWhile isDigit s) = CHR ''.''
                   then dropWhile isDigit (tl (dropWhile isDigit s)) else dropWhile isDigit s) of
              None \<Rightarrow> NaN
            | Some ex \<Rightarrow>
                roundMV (of_nat (digitsValue (takeWhile isDigit s @
                   (if dropWhile isDigit s \<noteq> [] \<and> hd (dropWhile isDigit s) = CHR ''.''
                    then takeWhile isDigit (tl (dropWhile isDigit s)) else []))) /
                   10 ^ length (if dropWhile isDigit s \<noteq> [] \<and> hd (dropWhile isDigit s) = CHR ''.''
                    then takeWhile isDigit (tl (dropWhile isDigit s)) else []) * 10 powi ex)))"
  unfolding strUnsignedDecimalLiteral_def Let_def by (rule if_not_P)

lemma strUnsignedDecimalLiteral_no_comma:
  assumes "strUnsignedDecimalLiteral s \<noteq> NaN"
  shows "CHR '','' \<notin> set s"
proof (cases "s = ''Infinity''")
  case True
  then show ?thesis by simp
next
  case False
  define r1 where "r1 = dropWhile isDigit s"
  define dot where "dot = (r1 \<noteq> [] \<and> hd r1 = CHR ''.'')"
  define r2 where "r2 = (if dot then dropWhile isDigit (tl r1) else r1)"
  have "exponentPart r2 \<noteq> None"
  proof
    assume "exponentPart r2 = None"
    then have "strUnsignedDecimalLiteral s = NaN"
      unfolding strUnsignedDecimalLiteral_unfold[OF False] r2_def dot_def r1_def by simp
    with assms show False by simp
  qed
  then obtain ex where ex: "exponentPart r2 = Some ex" by blast
  then have c2: "CHR '','' \<notin> set r2" by (rule exponentPart_no_comma)
  have c1: "CHR '','' \<notin> set r1"
  proof (cases dot)
    case True
    then obtain rest where r1: "r1 = CHR ''.'' # rest" by (cases r1) (auto simp: dot_def)
    have "set rest = set (takeWhile isDigit rest) \<union> set (dropWhile isDigit rest)"
      unfolding set_append[symmetric] by simp
    with c2 True r1 takeWhile_digits_no_comma[of rest] show ?thesis
      by (simp add: r2_def)
  next
    case False
    with c2 show ?thesis by (simp add: r2_def)
  qed
  have "set s = set (takeWhile isDigit s) \<union> set r1"
    unfolding set_append[symmetric] r1_def by simp
  with c1 takeWhile_digits_no_comma[of s] show ?thesis by simp
qed

lemma negate_NaN: "negate n = NaN \<longleftrightarrow> n = NaN"
  by (cases n) (simp_all add: negate_def)

lemma strDecimalLiteral_no_comma:
  assumes "strDecimalLiteral s \<noteq> NaN"
  shows "CHR '','' \<notin> set s"
proof (cases s)
  case Nil
  then show ?thesis by simp
next
  case (Cons c cs)
  show ?thesis
  proof (cases "c = CHR ''+'' \<or> c = CHR ''-''")
    case True
    with assms Cons have "strUnsignedDecimalLiteral cs \<noteq> NaN"
      by (auto simp add: strDecimalLiteral_def negate_NaN split: if_splits)
    then have "CHR '','' \<notin> set cs" by (rule strUnsignedDecimalLiteral_no_comma)
    with True Cons show ?thesis by auto
  next
    case False
    with assms Cons have "strUnsignedDecimalLiteral s \<noteq> NaN"
      by (simp add: strDecimalLiteral_def)
    then show ?thesis by (rule strUnsignedDecimalLiteral_no_comma)
  qed
qed

lemma radixDigit_comma: "radixDigit radix CHR '','' = None"
  by (simp add: radixDigit_def isDigit_def)

lemma radixValue_no_comma:
  assumes "radixValue radix s \<noteq> NaN"
  shows "CHR '','' \<notin> set s"
proof
  assume c: "CHR '','' \<in> set s"
  from assms have "list_all (\<lambda>c. radixDigit radix c \<noteq> None) s"
    by (simp add: radixValue_def split: if_splits)
  with c have "radixDigit radix CHR '','' \<noteq> None" by (simp add: list_all_iff)
  then show False by (simp add: radixDigit_comma)
qed

lemma strNumericLiteral_cases:
  "strNumericLiteral s = strDecimalLiteral s \<or>
   (\<exists>z x cs radix. s = z # x # cs \<and> z = CHR ''0'' \<and> x \<in> set ''xXoObB'' \<and>
      strNumericLiteral s = radixValue radix cs)"
proof (cases s)
  case Nil
  then show ?thesis by (simp add: strNumericLiteral_def)
next
  case (Cons z s1)
  show ?thesis
  proof (cases s1)
    case Nil
    with Cons show ?thesis by (simp add: strNumericLiteral_def)
  next
    case (Cons x cs)
    with \<open>s = z # s1\<close> have s: "s = z # x # cs" by simp
    show ?thesis
    proof (cases "z = CHR ''0'' \<and> x \<in> set ''xXoObB''")
      case False
      with s show ?thesis by (auto simp add: strNumericLiteral_def)
    next
      case True
      then have "strNumericLiteral s = radixValue 16 cs \<or> strNumericLiteral s = radixValue 8 cs
          \<or> strNumericLiteral s = radixValue 2 cs"
        unfolding s strNumericLiteral_def by auto
      with True s show ?thesis by blast
    qed
  qed
qed

lemma strNumericLiteral_no_comma:
  assumes "strNumericLiteral s \<noteq> NaN"
  shows "CHR '','' \<notin> set s"
proof -
  from strNumericLiteral_cases[of s] show ?thesis
  proof
    assume "strNumericLiteral s = strDecimalLiteral s"
    with assms show ?thesis by (simp add: strDecimalLiteral_no_comma)
  next
    assume "\<exists>z x cs radix. s = z # x # cs \<and> z = CHR ''0'' \<and> x \<in> set ''xXoObB'' \<and>
      strNumericLiteral s = radixValue radix cs"
    then obtain z x cs radix where s: "s = z # x # cs" "z = CHR ''0''"
      "x \<in> set ''xXoObB''" "strNumericLiteral s = radixValue radix cs"
      by blast
    with assms have "CHR '','' \<notin> set cs" by (simp add: radixValue_no_comma)
    with s(1,2,3) show ?thesis by auto
  qed
qed

lemma Number_comma: "CHR '','' \<in> set s \<Longrightarrow> Number s = NaN"
proof -
  assume "CHR '','' \<in> set s"
  then have "count_list s CHR '','' \<noteq> 0" by (simp add: count_list_0_iff)
  then have "count_list (trim s) CHR '','' \<noteq> 0" by (simp add: count_trim isWhiteSpace_def)
  then have c: "CHR '','' \<in> set (trim s)" by (simp add: count_list_0_iff)
  then have "trim s \<noteq> []" by auto
  with c strNumericLiteral_no_comma[of "trim s"] show ?thesis
    by (auto simp: Number_def Let_def)
qed

lemma strNumericLiteral_decimal:
  assumes "\<forall>c \<in> set s. c \<notin> set ''xXoObB''"
  shows "strNumericLiteral s = strDecimalLiteral s"
proof -
  from strNumericLiteral_cases[of s] show ?thesis
  proof
    assume "\<exists>z x cs radix. s = z # x # cs \<and> z = CHR ''0'' \<and> x \<in> set ''xXoObB'' \<and>
      strNumericLiteral s = radixValue radix cs"
    then obtain z x cs where "s = z # x # cs" "x \<in> set ''xXoObB''" by blast
    with assms show ?thesis by simp
  qed
qed

lemma strUnsignedDecimalLiteral_fraction:
  assumes "list_all isDigit ip" "list_all isDigit fp" "ip \<noteq> [] \<or> fp \<noteq> []"
  shows "strUnsignedDecimalLiteral (ip @ CHR ''.'' # fp) =
           roundMV (of_nat (digitsValue (ip @ fp)) / 10 ^ length fp)"
proof -
  have nd: "\<not> isDigit CHR ''.''" by (simp add: isDigit_def)
  have tw: "takeWhile isDigit (ip @ CHR ''.'' # fp) = ip"
    using assms(1) nd by (simp add: takeWhile_tail list_all_iff)
  have dw: "dropWhile isDigit (ip @ CHR ''.'' # fp) = CHR ''.'' # fp"
    using assms(1) nd by (simp add: dropWhile_append3 list_all_iff)
  have tf: "takeWhile isDigit fp = fp" using assms(2) by (simp add: list_all_iff)
  have df: "dropWhile isDigit fp = []" using assms(2) by (simp add: list_all_iff)
  have ni: "ip @ CHR ''.'' # fp \<noteq> ''Infinity''"
  proof
    assume e: "ip @ CHR ''.'' # fp = ''Infinity''"
    then have "CHR ''.'' \<in> set ''Infinity''" by (metis in_set_conv_decomp)
    then show False by simp
  qed
  show ?thesis
    unfolding strUnsignedDecimalLiteral_def Let_def tw dw
    using assms(3) ni by (auto simp add: tf df exponentPart_def)
qed

lemma strUnsignedDecimalLiteral_digits:
  assumes "list_all isDigit ip" "ip \<noteq> []"
  shows "strUnsignedDecimalLiteral ip = roundMV (of_nat (digitsValue ip))"
proof -
  have tw: "takeWhile isDigit ip = ip" using assms(1) by (simp add: list_all_iff)
  have dw: "dropWhile isDigit ip = []" using assms(1) by (simp add: list_all_iff)
  have ni: "ip \<noteq> ''Infinity''"
    using assms(1) by (auto simp: isDigit_def)
  show ?thesis
    unfolding strUnsignedDecimalLiteral_def Let_def tw dw
    using assms(2) ni by (auto simp add: exponentPart_def)
qed

lemma plain_char:
  assumes "isDigit c \<or> c = CHR ''.''"
  shows "\<not> isWhiteSpace c" and "c \<notin> set ''xXoObB''" and "c \<noteq> CHR ''+''" and "c \<noteq> CHR ''-''"
proof -
  from assms have "c \<in> set ''0123456789.''" by (simp add: isDigit_def)
  then show "\<not> isWhiteSpace c" and "c \<notin> set ''xXoObB''" and "c \<noteq> CHR ''+''" and "c \<noteq> CHR ''-''"
    by (auto simp: isWhiteSpace_def)
qed

lemma Number_plain:
  assumes "s \<noteq> []" and chars: "\<forall>c \<in> set s. isDigit c \<or> c = CHR ''.''"
  shows "Number s = strUnsignedDecimalLiteral s"
proof -
  from assms(1) have h: "hd s \<in> set s" and l: "last s \<in> set s" by simp_all
  from h l chars have "\<not> isWhiteSpace (hd s) \<and> \<not> isWhiteSpace (last s)"
    using plain_char(1) by blast
  then have t: "trim s = s" by (simp add: trim_id)
  have "\<forall>c \<in> set s. c \<notin> set ''xXoObB''"
    using chars plain_char(2) by blast
  then have n: "strNumericLiteral s = strDecimalLiteral s" by (rule strNumericLiteral_decimal)
  from h chars have "hd s \<noteq> CHR ''+''" "hd s \<noteq> CHR ''-''"
    using plain_char(3,4) by blast+
  with assms(1) have "strDecimalLiteral s = strUnsignedDecimalLiteral s"
    by (cases s) (simp_all add: strDecimalLiteral_def)
  with t n assms(1) show ?thesis by (simp add: Number_def Let_def)
qed

lemma Number_fraction:
  assumes "list_all isDigit ip" "list_all isDigit fp" "ip \<noteq> [] \<or> fp \<noteq> []"
  shows "Number (ip @ CHR ''.'' # fp) = roundMV (of_nat (digitsValue (ip @ fp)) / 10 ^ length fp)"
proof -
  have "\<forall>c \<in> set (ip @ CHR ''.'' # fp). isDigit c \<or> c = CHR ''.''"
    using assms(1,2) by (auto simp: list_all_iff)
  then have "Number (ip @ CHR ''.'' # fp) = strUnsignedDecimalLiteral (ip @ CHR ''.'' # fp)"
    by (intro Number_plain) simp_all
  then show ?thesis by (simp only: strUnsignedDecimalLiteral_fraction[OF assms])
qed

lemma Number_digits:
  assumes "list_all isDigit ip" "ip \<noteq> []"
  shows "Number ip = roundMV (of_nat (digitsValue ip))"
proof -
  have "\<forall>c \<in> set ip. isDigit c \<or> c = CHR ''.''"
    using assms(1) by (simp add: list_all_iff)
  with assms(2) have "Number ip = strUnsignedDecimalLiteral ip"
    by (intro Number_plain)
  then show ?thesis by (simp only: strUnsignedDecimalLiteral_digits[OF assms])
qed


text \<open>Whether \<open>R$\<close> or \<open>r$\<close> occurs in a string, that is, whether \<open>/R\$/i\<close> matches.\<close>

fun hasRS :: "string \<Rightarrow> bool" where
  "hasRS (c # d # cs) = (((c = CHR ''R'' \<or> c = CHR ''r'') \<and> d = CHR ''$'') \<or> hasRS (d # cs))"
| "hasRS cs = False"

subsection \<open>Facts about \<open>parseBrazilianNumber\<close> and \<open>parseBRL\<close>\<close>

lemma roundMV_finite: "0 \<le> v \<Longrightarrow> isFinite (roundMV v) \<longleftrightarrow> v < overflowThreshold"
  by (simp add: roundMV_def isFinite_def)

lemma group_char_not_space:
  assumes "isDigit c \<or> c = CHR ''.'' \<or> c = CHR '',''"
  shows "\<not> isWhiteSpace c"
proof -
  from assms have "c \<in> set ''0123456789.,''" by (simp add: isDigit_def)
  then show ?thesis by (auto simp: isWhiteSpace_def)
qed

lemma parseBrazilianNumber_unfold:
  "trim raw \<noteq> [] \<Longrightarrow>
   parseBrazilianNumber raw =
     (if isFinite (Number (replaceFirstComma (filter (\<lambda>c. c \<noteq> CHR ''.'') (trim raw))))
      then Some (Number (replaceFirstComma (filter (\<lambda>c. c \<noteq> CHR ''.'') (trim raw))))
      else None)"
  by (simp add: parseBrazilianNumber_def Let_def)

lemma normalized_digitGroups:
  assumes "spec_digitGroups s"
  shows "Number (replaceFirstComma (filter (\<lambda>c. c \<noteq> CHR ''.'') s)) = roundMV (spec_decimalValue s)"
proof -
  define t where "t = filter (\<lambda>c. c \<noteq> CHR ''.'') s"
  have chars: "\<forall>c \<in> set t. isDigit c \<or> c = CHR '',''"
    using assms by (auto simp: spec_digitGroups_def t_def list_all_iff)
  have "\<not> isDigit CHR ''.''" by (simp add: isDigit_def)
  with assms have dig: "\<exists>c \<in> set t. isDigit c"
    by (auto simp: spec_digitGroups_def t_def list_ex_iff)
  have cnt: "count_list t CHR '','' \<le> 1"
    using assms by (simp add: spec_digitGroups_def t_def count_filter)
  show ?thesis
  proof (cases "CHR '','' \<in> set t")
    case False
    with chars have all: "list_all isDigit t" by (auto simp: list_all_iff)
    from dig have ne: "t \<noteq> []" by auto
    have tw: "takeWhile (\<lambda>c. c \<noteq> CHR '','') t = t" using False by (auto simp: takeWhile_eq_all_conv)
    have dw: "dropWhile (\<lambda>c. c \<noteq> CHR '','') t = []" using False by (auto simp: dropWhile_eq_Nil_conv)
    have "spec_decimalValue s = of_nat (digitsValue t)"
      unfolding spec_decimalValue_def Let_def t_def[symmetric] tw dw by simp
    with Number_digits[OF all ne] replaceFirstComma_none[OF False] show ?thesis
      by (simp add: t_def)
  next
    case True
    then obtain ip fp where t: "t = ip @ CHR '','' # fp" "CHR '','' \<notin> set ip"
      by (auto dest: split_list_first)
    with cnt have nf: "CHR '','' \<notin> set fp"
      by (auto simp: count_list_0_iff[symmetric])
    from chars t nf have ai: "list_all isDigit ip" and af: "list_all isDigit fp"
      by (auto simp: list_all_iff)
    from dig t comma_not_digit have ne: "ip \<noteq> [] \<or> fp \<noteq> []" by auto
    have tw: "takeWhile (\<lambda>c. c \<noteq> CHR '','') t = ip"
      using t by (auto simp: takeWhile_tail takeWhile_eq_all_conv)
    have dw: "dropWhile (\<lambda>c. c \<noteq> CHR '','') t = CHR '','' # fp"
      using t by (auto simp: dropWhile_append3 dropWhile_eq_Nil_conv)
    have "spec_decimalValue s = of_nat (digitsValue (ip @ fp)) / 10 ^ length fp"
      unfolding spec_decimalValue_def Let_def t_def[symmetric] tw dw by simp
    with Number_fraction[OF ai af ne] replaceFirstComma_first[OF t(2), of fp] t(1) show ?thesis
      by (simp add: t_def)
  qed
qed

lemma spec_decimalValue_nonneg: "0 \<le> spec_decimalValue s"
  by (simp add: spec_decimalValue_def Let_def)

lemma parseBrazilianNumber_digitGroups:
  assumes "spec_digitGroups s"
  shows "parseBrazilianNumber s =
    (if spec_decimalValue s < overflowThreshold then Some (Num (spec_decimalValue s)) else None)"
proof -
  from assms have ne: "s \<noteq> []" by (auto simp: spec_digitGroups_def)
  then have "hd s \<in> set s" "last s \<in> set s" by simp_all
  with assms have "\<not> isWhiteSpace (hd s) \<and> \<not> isWhiteSpace (last s)"
    using group_char_not_space by (auto simp: spec_digitGroups_def list_all_iff)
  then have t: "trim s = s" by (simp add: trim_id)
  with ne have "trim s \<noteq> []" by simp
  from parseBrazilianNumber_unfold[OF this]
  have "parseBrazilianNumber s =
     (if isFinite (roundMV (spec_decimalValue s)) then Some (roundMV (spec_decimalValue s)) else None)"
    unfolding t normalized_digitGroups[OF assms] .
  then show ?thesis
    by (cases "spec_decimalValue s < overflowThreshold") (simp_all add: roundMV_def isFinite_def)
qed

lemma parseBrazilianNumber_commas:
  assumes "2 \<le> count_list raw CHR '',''"
  shows "parseBrazilianNumber raw = None"
proof -
  let ?n = "replaceFirstComma (filter (\<lambda>c. c \<noteq> CHR ''.'') (trim raw))"
  have ws: "\<not> isWhiteSpace CHR '',''" by (simp add: isWhiteSpace_def)
  have "count_list ?n CHR '','' = count_list raw CHR '','' - 1"
    by (simp add: count_replaceFirstComma count_filter count_trim[OF ws])
  with assms have "count_list ?n CHR '','' \<noteq> 0" by simp
  then have "CHR '','' \<in> set ?n" by (simp add: count_list_0_iff)
  then have "Number ?n = NaN" by (rule Number_comma)
  then show ?thesis by (simp add: parseBrazilianNumber_def Let_def isFinite_def)
qed

lemma parseBrazilianNumber_blank: "list_all isWhiteSpace raw \<Longrightarrow> parseBrazilianNumber raw = None"
  by (simp add: parseBrazilianNumber_def trim_blank)

lemma parseBrazilianNumber_trim: "parseBrazilianNumber (trim s) = parseBrazilianNumber s"
  by (simp add: parseBrazilianNumber_def trim_idem)

lemma removeRS_none: "\<not> hasRS s \<Longrightarrow> removeRS s = s"
  by (induction s rule: removeRS.induct) auto

lemma removeRS_first:
  "\<not> hasRS pre \<Longrightarrow> r = CHR ''R'' \<or> r = CHR ''r'' \<Longrightarrow>
   removeRS (pre @ r # CHR ''$'' # rest) = pre @ dropWhile isWhiteSpace rest"
  by (induction pre rule: removeRS.induct) auto

lemma dropWhile_blank_prefix:
  "list_all isWhiteSpace ws \<Longrightarrow> rest = [] \<or> \<not> isWhiteSpace (hd rest) \<Longrightarrow>
   dropWhile isWhiteSpace (ws @ rest) = rest"
  by (induction ws) (auto simp: dropWhile_id)


lemma digitsValue_snoc: "digitsValue (s @ [c]) = 10 * digitsValue s + digitVal c"
  by (simp add: digitsValue_def)

lemma digitsValue_nines: "digitsValue (replicate n CHR ''9'') + 1 = 10 ^ n"
proof (induction n)
  case 0
  then show ?case by (simp add: digitsValue_def)
next
  case (Suc n)
  have "digitsValue (replicate (Suc n) CHR ''9'') = 10 * digitsValue (replicate n CHR ''9'') + 9"
    unfolding replicate_Suc replicate_append_same[symmetric]
    by (simp add: digitsValue_snoc digitVal_def)
  with Suc show ?case by simp
qed

lemma nines_digitGroups: "0 < n \<Longrightarrow> spec_digitGroups (replicate n CHR ''9'')"
  by (cases n) (auto simp: spec_digitGroups_def isDigit_def list_all_iff count_list_0_iff)

lemma nines_value: "spec_decimalValue (replicate n CHR ''9'') = 10 ^ n - 1"
proof -
  have f: "filter (\<lambda>c. c \<noteq> CHR ''.'') (replicate n CHR ''9'') = replicate n CHR ''9''"
    by simp
  have tw: "takeWhile (\<lambda>c. c \<noteq> CHR '','') (replicate n CHR ''9'') = replicate n CHR ''9''"
    by (simp add: takeWhile_eq_all_conv)
  have dw: "dropWhile (\<lambda>c. c \<noteq> CHR '','') (replicate n CHR ''9'') = []"
    by (simp add: dropWhile_eq_Nil_conv)
  have "rat_of_nat (digitsValue (replicate n CHR ''9'') + 1) = rat_of_nat (10 ^ n)"
    by (simp only: digitsValue_nines)
  then have "rat_of_nat (digitsValue (replicate n CHR ''9'')) + 1 = 10 ^ n"
    by simp
  then show ?thesis
    unfolding spec_decimalValue_def Let_def f tw dw by simp
qed

lemma two_ten_step: "A \<le> B \<Longrightarrow> 1 \<le> B \<Longrightarrow> 2 * A \<le> 10 * B - (1::rat)"
  by linarith

lemma pow_2_1024_le: "(2::rat) ^ 1024 \<le> 10 ^ 309 - 1"
proof -
  have a: "(2::rat) ^ 93 \<le> 10 ^ 28" by simp
  have "((2::rat) ^ 93) ^ 11 \<le> (10 ^ 28) ^ 11"
    by (rule power_mono[OF a]) simp
  then have b: "(2::rat) ^ (93 * 11) \<le> 10 ^ (28 * 11)" by (simp only: power_mult)
  have c: "(1::rat) \<le> 10 ^ (28 * 11)" by (rule one_le_power) simp
  have e1: "Suc (93 * 11) = 1024" and e2: "Suc (28 * 11) = 309" by simp_all
  have "(2::rat) ^ Suc (93 * 11) \<le> 10 ^ Suc (28 * 11) - 1"
    unfolding power_Suc by (rule two_ten_step[OF b c])
  then show ?thesis unfolding e1 e2 .
qed

lemma threshold_le: "overflowThreshold \<le> 2 ^ 1024"
  unfolding overflowThreshold_def by simp

lemma nines_overflow: "overflowThreshold \<le> spec_decimalValue (replicate 309 CHR ''9'')"
  unfolding nines_value by (rule order_trans[OF threshold_le pow_2_1024_le])

lemma nines_undefined: "parseBrazilianNumber (replicate 309 CHR ''9'') = None"
proof -
  have "spec_digitGroups (replicate 309 CHR ''9'')" by (rule nines_digitGroups) simp
  from parseBrazilianNumber_digitGroups[OF this] nines_overflow show ?thesis
    by (simp only: not_less[symmetric] if_False)
qed

lemmas number_eval = Number_def trim_def isWhiteSpace_def strNumericLiteral_def strDecimalLiteral_def
  strUnsignedDecimalLiteral_def isDigit_def exponentPart_def signedInteger_def roundMV_def
  overflowThreshold_def digitsValue_def digitVal_def Let_def isFinite_def isInteger_def
  radixValue_def radixDigit_def negate_def

text \<open>
  \<open>parseBRL\<close> deletes an \<open>R$\<close> that is not leading, and an \<open>r$\<close>, where the words of the
  specification leave the string as it is; and a string of 309 nines is a string of digit
  groups whose value overflows, so that \<open>parseBrazilianNumber\<close> returns undefined for it.
\<close>

theorem parseBRL_counterexample:
  "parseBRL ''1R$ 2'' = Some (Num 12) \<and>
   parseBrazilianNumber (spec_stripLeadingRS ''1R$ 2'') = None \<and>
   parseBRL ''r$ 5'' = Some (Num 5) \<and>
   parseBrazilianNumber (spec_stripLeadingRS ''r$ 5'') = None \<and>
   spec_digitGroups (replicate 309 CHR ''9'') \<and>
   parseBrazilianNumber (replicate 309 CHR ''9'') = None"
proof -
  have "parseBRL ''1R$ 2'' = Some (Num 12)"
    by (simp add: parseBRL_def parseBrazilianNumber_def number_eval)
  moreover have "parseBrazilianNumber (spec_stripLeadingRS ''1R$ 2'') = None"
    by (simp add: parseBrazilianNumber_def spec_stripLeadingRS_def number_eval)
  moreover have "parseBRL ''r$ 5'' = Some (Num 5)"
    by (simp add: parseBRL_def parseBrazilianNumber_def number_eval)
  moreover have "parseBrazilianNumber (spec_stripLeadingRS ''r$ 5'') = None"
    by (simp add: parseBrazilianNumber_def spec_stripLeadingRS_def number_eval)
  moreover have "spec_digitGroups (replicate 309 CHR ''9'')" by (rule nines_digitGroups) simp
  ultimately show ?thesis using nines_undefined by blast
qed

text \<open>
  C10, as the code has it. \<open>parseBrazilianNumber\<close> returns undefined for an input of white
  space only and whenever \<open>Number\<close> of the normalised string is NaN or infinite; for every
  string of digits, dots and at most one comma that has a digit it returns the number
  obtained by deleting the dots and reading the comma as the decimal point when that
  number is below the overflow threshold of binary64, and undefined otherwise; a string
  with two or more commas yields undefined; and \<open>parseBRL\<close> is \<open>parseBrazilianNumber\<close> of
  the input itself when no \<open>R$\<close> or \<open>r$\<close> occurs in it, and otherwise of the input with the
  first occurrence, wherever it stands, deleted together with the white space after it.
\<close>

theorem parseBrazilianNumber_parseBRL:
  "(list_all isWhiteSpace raw \<longrightarrow> parseBrazilianNumber raw = None) \<and>
   (\<not> isFinite (Number (replaceFirstComma (filter (\<lambda>c. c \<noteq> CHR ''.'') (trim raw)))) \<longrightarrow>
      parseBrazilianNumber raw = None) \<and>
   (spec_digitGroups s \<and> spec_decimalValue s < overflowThreshold \<longrightarrow>
      parseBrazilianNumber s = Some (Num (spec_decimalValue s))) \<and>
   (spec_digitGroups s \<and> overflowThreshold \<le> spec_decimalValue s \<longrightarrow>
      parseBrazilianNumber s = None) \<and>
   (2 \<le> count_list raw CHR '','' \<longrightarrow> parseBrazilianNumber raw = None) \<and>
   (\<not> hasRS raw \<longrightarrow> parseBRL raw = parseBrazilianNumber raw) \<and>
   (\<not> hasRS pre \<and> (r = CHR ''R'' \<or> r = CHR ''r'') \<and> list_all isWhiteSpace ws \<and>
    (rest = [] \<or> \<not> isWhiteSpace (hd rest)) \<longrightarrow>
      parseBRL (pre @ r # CHR ''$'' # ws @ rest) = parseBrazilianNumber (pre @ rest))"
proof (intro conjI impI)
  assume "list_all isWhiteSpace raw"
  then show "parseBrazilianNumber raw = None" by (rule parseBrazilianNumber_blank)
next
  assume "\<not> isFinite (Number (replaceFirstComma (filter (\<lambda>c. c \<noteq> CHR ''.'') (trim raw))))"
  then show "parseBrazilianNumber raw = None"
    by (simp add: parseBrazilianNumber_def Let_def)
next
  assume "spec_digitGroups s \<and> spec_decimalValue s < overflowThreshold"
  then show "parseBrazilianNumber s = Some (Num (spec_decimalValue s))"
    by (simp add: parseBrazilianNumber_digitGroups)
next
  assume "spec_digitGroups s \<and> overflowThreshold \<le> spec_decimalValue s"
  then show "parseBrazilianNumber s = None"
    by (simp add: parseBrazilianNumber_digitGroups)
next
  assume "2 \<le> count_list raw CHR '',''"
  then show "parseBrazilianNumber raw = None" by (rule parseBrazilianNumber_commas)
next
  assume "\<not> hasRS raw"
  then show "parseBRL raw = parseBrazilianNumber raw"
    by (simp add: parseBRL_def removeRS_none parseBrazilianNumber_trim)
next
  assume h: "\<not> hasRS pre \<and> (r = CHR ''R'' \<or> r = CHR ''r'') \<and> list_all isWhiteSpace ws \<and>
    (rest = [] \<or> \<not> isWhiteSpace (hd rest))"
  then have "removeRS (pre @ r # CHR ''$'' # ws @ rest) = pre @ dropWhile isWhiteSpace (ws @ rest)"
    by (intro removeRS_first) simp_all
  also have "dropWhile isWhiteSpace (ws @ rest) = rest"
    using h by (intro dropWhile_blank_prefix) simp_all
  finally show "parseBRL (pre @ r # CHR ''$'' # ws @ rest) = parseBrazilianNumber (pre @ rest)"
    by (simp add: parseBRL_def parseBrazilianNumber_trim)
qed

theorem parseBrazilianNumber_parseBRL_witness:
  "parseBrazilianNumber ''  '' = None \<and>
   parseBrazilianNumber ''12a'' = None \<and>
   parseBrazilianNumber ''1.234,56'' = Some (Num (123456 / 100)) \<and>
   parseBrazilianNumber ''1,2,3'' = None \<and>
   parseBRL ''117.000,00'' = parseBrazilianNumber ''117.000,00'' \<and>
   parseBRL ''R$ 117.000,00'' = parseBrazilianNumber ''117.000,00'' \<and>
   parseBRL ''1R$ 2'' = parseBrazilianNumber ''12''"
proof -
  have 1: "list_all isWhiteSpace ''  ''" by (simp add: isWhiteSpace_def)
  have 2: "\<not> isFinite (Number (replaceFirstComma (filter (\<lambda>c. c \<noteq> CHR ''.'') (trim ''12a''))))"
    by (simp add: number_eval)
  have 3: "spec_digitGroups ''1.234,56'' \<and> spec_decimalValue ''1.234,56'' < overflowThreshold"
    by (simp add: spec_digitGroups_def spec_decimalValue_def number_eval)
  have v3: "spec_decimalValue ''1.234,56'' = 123456 / 100"
    by (simp add: spec_decimalValue_def number_eval)
  have 4: "2 \<le> count_list ''1,2,3'' CHR '',''" by simp
  have 5: "\<not> hasRS ''117.000,00''" by simp
  have 6: "\<not> hasRS [] \<and> (CHR ''R'' = CHR ''R'' \<or> CHR ''R'' = CHR ''r'') \<and> list_all isWhiteSpace '' '' \<and>
    (''117.000,00'' = [] \<or> \<not> isWhiteSpace (hd ''117.000,00''))"
    by (simp add: isWhiteSpace_def)
  have 7: "\<not> hasRS ''1'' \<and> (CHR ''R'' = CHR ''R'' \<or> CHR ''R'' = CHR ''r'') \<and> list_all isWhiteSpace '' '' \<and>
    (''2'' = [] \<or> \<not> isWhiteSpace (hd ''2''))"
    by (simp add: isWhiteSpace_def)
  note A = parseBrazilianNumber_parseBRL[of "''  ''" "''1.234,56''" "[]" "CHR ''R''" "'' ''" "''117.000,00''"]
  note B = parseBrazilianNumber_parseBRL[of "''12a''" "''1.234,56''" "''1''" "CHR ''R''" "'' ''" "''2''"]
  note C = parseBrazilianNumber_parseBRL[of "''1,2,3''" "''1.234,56''" "[]" "CHR ''R''" "'' ''" "''117.000,00''"]
  note D = parseBrazilianNumber_parseBRL[of "''117.000,00''" "''1.234,56''" "[]" "CHR ''R''" "'' ''" "''117.000,00''"]
  from A 1 have "parseBrazilianNumber ''  '' = None" by blast
  moreover from B 2 have "parseBrazilianNumber ''12a'' = None" by blast
  moreover from A 3 have "parseBrazilianNumber ''1.234,56'' = Some (Num (spec_decimalValue ''1.234,56''))"
    by blast
  moreover from C 4 have "parseBrazilianNumber ''1,2,3'' = None" by blast
  moreover from D 5 have "parseBRL ''117.000,00'' = parseBrazilianNumber ''117.000,00''" by blast
  moreover from A 6 have "parseBRL ([] @ CHR ''R'' # CHR ''$'' # '' '' @ ''117.000,00'')
      = parseBrazilianNumber ([] @ ''117.000,00'')" by blast
  moreover from B 7 have "parseBRL (''1'' @ CHR ''R'' # CHR ''$'' # '' '' @ ''2'')
      = parseBrazilianNumber (''1'' @ ''2'')" by blast
  ultimately show ?thesis by (simp add: v3)
qed


section \<open>The search response (src/parsers/parseSearchResponse.ts)\<close>

text \<open>
  \<open>cheerio.load\<close> is a library. What \<open>parseSearchResponse\<close> asks of the loaded document
  is \<open>$("#id").attr("value")\<close>: the \<open>value\<close> attribute of the first element with that
  id, undefined when there is no such element or it has no such attribute. The document is
  therefore the list, in document order, of its elements that have an id, each with its
  \<open>value\<close> attribute if it has one.
\<close>

type_synonym searchDoc = "(string \<times> string option) list"

definition attrValue :: "searchDoc \<Rightarrow> string \<Rightarrow> string option" where
  "attrValue doc ident = (case map_of doc ident of None \<Rightarrow> None | Some v \<Rightarrow> v)"

text \<open>The decimal numeral of a natural number, as the template literal renders \<open>i\<close>.\<close>

definition digitChar :: "nat \<Rightarrow> char" where
  "digitChar d = char_of (48 + d)"

function string_of_nat :: "nat \<Rightarrow> string" where
  "string_of_nat n =
     (if n < 10 then [digitChar n] else string_of_nat (n div 10) @ [digitChar (n mod 10)])"
  by pat_completeness auto
termination
  by (relation "measure id") auto

declare string_of_nat.simps [simp del]

record CaixaSearchResult =
  hdnImovByPage :: "string list"
  qtdPag :: int
  qtdRegistros :: int
  hdnFiltro :: "string option"

definition parseIntStrict :: "string option \<Rightarrow> error + int" where
  "parseIntStrict raw =
     (let v = trim (case raw of None \<Rightarrow> [] | Some r \<Rightarrow> r);
          n = Number v
      in if \<not> isFinite n \<or> \<not> isInteger n
         then Inl (ExpectedInteger (case raw of None \<Rightarrow> [] | Some r \<Rightarrow> r))
         else Inr (case n of Num q \<Rightarrow> \<lfloor>q\<rfloor> | _ \<Rightarrow> 0))"

definition hdnImovId :: "nat \<Rightarrow> string" where
  "hdnImovId i = ''hdnImov'' @ string_of_nat i"

lemma digitVal_digitChar: "d < 10 \<Longrightarrow> digitVal (digitChar d) = d"
  by (simp add: digitVal_def digitChar_def)

lemma digitsValue_string_of_nat: "digitsValue (string_of_nat n) = n"
proof (induction n rule: string_of_nat.induct)
  case (1 n)
  show ?case
  proof (cases "n < 10")
    case True
    then show ?thesis
      by (subst string_of_nat.simps) (simp add: digitsValue_def digitVal_digitChar)
  next
    case False
    with 1 have "digitsValue (string_of_nat (n div 10)) = n div 10" by simp
    with False show ?thesis
      by (subst string_of_nat.simps) (simp add: digitsValue_snoc digitVal_digitChar)
  qed
qed

lemma inj_hdnImovId: "inj hdnImovId"
proof (rule injI)
  fix i j
  assume "hdnImovId i = hdnImovId j"
  then have "string_of_nat i = string_of_nat j" by (simp add: hdnImovId_def)
  then have "digitsValue (string_of_nat i) = digitsValue (string_of_nat j)" by simp
  then show "i = j" by (simp add: digitsValue_string_of_nat)
qed

lemma attrValue_in_doc: "attrValue doc ident = Some v \<Longrightarrow> ident \<in> fst ` set doc"
  by (auto simp: attrValue_def split: option.splits dest: map_of_SomeD intro: rev_image_eqI)

lemma finite_hdnImov_indices: "finite {j. hdnImovId j \<in> fst ` set doc}"
proof -
  have "finite (hdnImovId -` (fst ` set doc))"
    by (rule finite_vimageI[OF _ inj_hdnImovId]) simp
  then show ?thesis by (simp add: vimage_def)
qed

text \<open>
  The loop \<open>for (let i = 1; ; i++)\<close>, from the index \<open>i\<close> on, with the tokens pushed so
  far. It ends at the first index whose input is missing or has an empty value; a document
  has finitely many elements, so it ends.
\<close>

function hdnImovLoop :: "searchDoc \<Rightarrow> nat \<Rightarrow> string list \<Rightarrow> string list" where
  "hdnImovLoop doc i acc =
     (case attrValue doc (hdnImovId i) of
        None \<Rightarrow> acc
      | Some v \<Rightarrow> if v = [] then acc else hdnImovLoop doc (Suc i) (acc @ [v]))"
  by pat_completeness auto
termination
proof (relation "measure (\<lambda>(doc, i, acc). card {j. i \<le> j \<and> hdnImovId j \<in> fst ` set doc})")
  show "wf (measure (\<lambda>(doc, i, acc). card {j. i \<le> j \<and> hdnImovId j \<in> fst ` set doc}))"
    by simp
next
  fix doc :: searchDoc and i :: nat and acc :: "string list" and v :: string
  assume "attrValue doc (hdnImovId i) = Some v"
  then have mem: "hdnImovId i \<in> fst ` set doc" by (rule attrValue_in_doc)
  have fin: "finite {j. i \<le> j \<and> hdnImovId j \<in> fst ` set doc}"
    by (rule finite_subset[OF _ finite_hdnImov_indices[of doc]]) auto
  have "i \<in> {j. i \<le> j \<and> hdnImovId j \<in> fst ` set doc}"
    and "i \<notin> {j. Suc i \<le> j \<and> hdnImovId j \<in> fst ` set doc}"
    and "{j. Suc i \<le> j \<and> hdnImovId j \<in> fst ` set doc} \<subseteq> {j. i \<le> j \<and> hdnImovId j \<in> fst ` set doc}"
    using mem by auto
  then have "{j. Suc i \<le> j \<and> hdnImovId j \<in> fst ` set doc} \<subset> {j. i \<le> j \<and> hdnImovId j \<in> fst ` set doc}"
    by blast
  then have "card {j. Suc i \<le> j \<and> hdnImovId j \<in> fst ` set doc}
      < card {j. i \<le> j \<and> hdnImovId j \<in> fst ` set doc}"
    by (rule psubset_card_mono[OF fin])
  then show "((doc, Suc i, acc @ [v]), (doc, i, acc))
      \<in> measure (\<lambda>(doc, i, acc). card {j. i \<le> j \<and> hdnImovId j \<in> fst ` set doc})"
    by simp
qed

declare hdnImovLoop.simps [simp del]

definition parseSearchResponse :: "searchDoc \<Rightarrow> error + CaixaSearchResult" where
  "parseSearchResponse doc =
     (case parseIntStrict (attrValue doc ''hdnQtdPag'') of
        Inl e \<Rightarrow> Inl e
      | Inr qtdPag' \<Rightarrow>
          (case parseIntStrict (attrValue doc ''hdnQtdRegistros'') of
             Inl e \<Rightarrow> Inl e
           | Inr qtdRegistros' \<Rightarrow>
               let hdnFiltro' = map_option trim (attrValue doc ''hdnFiltro'');
                   hdnImovByPage' = hdnImovLoop doc 1 []
               in if length hdnImovByPage' = 0 then Inl NoHdnImovInputs
                  else Inr \<lparr>hdnImovByPage = hdnImovByPage',
                            qtdPag = (if qtdPag' > 0 then qtdPag' else int (length hdnImovByPage')),
                            qtdRegistros = qtdRegistros',
                            hdnFiltro = (case hdnFiltro' of
                                           None \<Rightarrow> None
                                         | Some f \<Rightarrow> if f \<noteq> [] then Some f else None)\<rparr>))"






subsection \<open>Facts about \<open>parseSearchResponse\<close>\<close>


















section \<open>The listing page (src/parsers/parseListPage.ts)\<close>

text \<open>
  An item of the listing, with the optional fields of \<open>ImovelListItem\<close> as options.
\<close>

record ImovelListItem =
  imovelId :: string
  uf :: string
  cidadeId :: string
  titulo :: string
  fotoFilename :: "string option"
  fotoUrl :: "string option"
  modalidade :: "string option"
  tipoImovel :: "string option"
  areaUtilM2 :: "jsnum option"
  quartos :: "jsnum option"
  vagas :: "jsnum option"
  valorAvaliacao :: "jsnum option"
  valorMinimo :: "jsnum option"
  descontoPercent :: "jsnum option"
  enderecoRaw :: "string option"
  observacoesRaw :: "string option"
  page :: int

text \<open>
  What \<open>parseListPageHtml\<close> reads of one result card \<open>li.group-block-item\<close> through
  cheerio: the elements inside the card that have an \<open>onclick\<close> attribute, in document
  order, each as its tag name and the attribute; the text of the first
  \<open>a[onclick*='detalhe_imovel']\<close>, empty when there is none; and the values that lines 39
  to 105 extract from the texts of the card for the optional fields (the final
  \<open>modalidade\<close>, \<open>tipoImovel\<close>, the numbers, the address and the remarks), which are taken
  as given.
\<close>

record cardView =
  onclickAttrs :: "(string \<times> string) list"
  anchorText :: string
  modalidadeFinal :: "string option"
  tipoImovelRaw :: "string option"
  areaUtilM2Raw :: "jsnum option"
  quartosRaw :: "jsnum option"
  vagasRaw :: "jsnum option"
  valorAvaliacaoRaw :: "jsnum option"
  valorMinimoRaw :: "jsnum option"
  descontoPercentRaw :: "jsnum option"
  enderecoRawText :: "string option"
  observacoesRawText :: "string option"

text \<open>
  The regular expression \<open>/detalhe_imovel\((\d+)\)/\<close> at the start of a string: the
  literal, then the longest run of digits, which must not be empty, then \<open>)\<close>. A shorter
  run of digits is followed by a digit and cannot match. \<open>matchDetalhe\<close> is the leftmost
  match in a string and returns the group of digits.
\<close>

definition matchDetalheHere :: "string \<Rightarrow> string option" where
  "matchDetalheHere s =
     (if prefix ''detalhe_imovel('' s then
        let rest = drop (length ''detalhe_imovel('') s;
            ds = takeWhile isDigit rest;
            after = dropWhile isDigit rest
        in if ds \<noteq> [] \<and> after \<noteq> [] \<and> hd after = CHR '')'' then Some ds else None
      else None)"

fun matchDetalhe :: "string \<Rightarrow> string option" where
  "matchDetalhe [] = None"
| "matchDetalhe (c # cs) =
     (case matchDetalheHere (c # cs) of Some ds \<Rightarrow> Some ds | None \<Rightarrow> matchDetalhe cs)"

text \<open>\<open>firstMatch(text, /detalhe_imovel\((\d+)\)/)\<close>: \<open>m?.[1]?.trim() || undefined\<close>.\<close>

definition firstMatchDetalhe :: "string \<Rightarrow> string option" where
  "firstMatchDetalhe txt =
     (case matchDetalhe txt of
        None \<Rightarrow> None
      | Some g \<Rightarrow> if trim g = [] then None else Some (trim g))"

text \<open>\<open>s.replace(/\s+/g, " ")\<close>: every maximal run of white space becomes one space.\<close>

function collapseSpaces :: "string \<Rightarrow> string" where
  "collapseSpaces [] = []"
| "collapseSpaces (c # cs) =
     (if isWhiteSpace c then CHR '' '' # collapseSpaces (dropWhile isWhiteSpace cs)
      else c # collapseSpaces cs)"
  by pat_completeness auto
termination
  by (relation "measure length") (auto simp: length_dropWhile_le less_Suc_eq_le)

text \<open>A string that is kept when truthy: \<open>x ? { x } : {}\<close>.\<close>

definition truthy :: "string option \<Rightarrow> string option" where
  "truthy x = (case x of None \<Rightarrow> None | Some s \<Rightarrow> if s = [] then None else Some s)"

definition cardOnclick :: "cardView \<Rightarrow> string" where
  "cardOnclick crd =
     (case find (\<lambda>(tag, oc). sublist ''detalhe_imovel'' oc) (onclickAttrs crd) of
        Some (tag, oc) \<Rightarrow> oc
      | None \<Rightarrow>
          (case find (\<lambda>(tag, oc). tag = ''img'' \<and> sublist ''detalhe_imovel'' oc) (onclickAttrs crd) of
             Some (tag, oc) \<Rightarrow> oc
           | None \<Rightarrow> []))"

definition parseCard :: "string \<Rightarrow> string \<Rightarrow> int \<Rightarrow> cardView \<Rightarrow> ImovelListItem option" where
  "parseCard uf' cidadeId' page' crd =
     (case firstMatchDetalhe (cardOnclick crd) of
        None \<Rightarrow> None
      | Some imovelId' \<Rightarrow>
          Some \<lparr>imovelId = imovelId',
                uf = uf',
                cidadeId = cidadeId',
                titulo = trim (collapseSpaces (anchorText crd)),
                fotoFilename = None,
                fotoUrl = None,
                modalidade = truthy (map_option trim (modalidadeFinal crd)),
                tipoImovel = truthy (tipoImovelRaw crd),
                areaUtilM2 = areaUtilM2Raw crd,
                quartos = quartosRaw crd,
                vagas = vagasRaw crd,
                valorAvaliacao = valorAvaliacaoRaw crd,
                valorMinimo = valorMinimoRaw crd,
                descontoPercent = descontoPercentRaw crd,
                enderecoRaw = truthy (enderecoRawText crd),
                observacoesRaw = truthy (observacoesRawText crd),
                page = page'\<rparr>)"

text \<open>
  \<open>$("li.group-block-item").each\<close> visits the cards in document order; a card either
  pushes one item or returns early.
\<close>

definition parseListPageHtml :: "cardView list \<Rightarrow> string \<Rightarrow> string \<Rightarrow> int \<Rightarrow> ImovelListItem list" where
  "parseListPageHtml cards uf' cidadeId' page' = List.map_filter (parseCard uf' cidadeId' page') cards"

text \<open>
  The words of the specification: an onclick attribute of the form \<open>detalhe_imovel(N)\<close>
  with \<open>N\<close> the digits \<open>ds\<close>.
\<close>

definition spec_detalheOnclick :: "string \<Rightarrow> string \<Rightarrow> bool" where
  "spec_detalheOnclick ds oc =
     (ds \<noteq> [] \<and> list_all isDigit ds \<and> sublist (''detalhe_imovel('' @ ds @ '')'') oc)"

definition plainCard :: "string list \<Rightarrow> string \<Rightarrow> cardView" where
  "plainCard ocs t =
     \<lparr>onclickAttrs = map (\<lambda>oc. (''a'', oc)) ocs, anchorText = t, modalidadeFinal = None,
      tipoImovelRaw = None, areaUtilM2Raw = None, quartosRaw = None, vagasRaw = None,
      valorAvaliacaoRaw = None, valorMinimoRaw = None, descontoPercentRaw = None,
      enderecoRawText = None, observacoesRawText = None\<rparr>"


subsection \<open>Facts about \<open>parseListPageHtml\<close>\<close>

lemma matchDetalheHere_Some:
  assumes "matchDetalheHere s = Some ds"
  shows "ds \<noteq> [] \<and> list_all isDigit ds \<and> prefix (''detalhe_imovel('' @ ds @ '')'') s"
proof -
  define rest where "rest = drop (length ''detalhe_imovel('') s"
  define after where "after = dropWhile isDigit rest"
  from assms have p: "prefix ''detalhe_imovel('' s"
    by (simp add: matchDetalheHere_def split: if_splits)
  with assms have ds: "ds = takeWhile isDigit rest" "ds \<noteq> []" "after \<noteq> []" "hd after = CHR '')''"
    by (simp_all add: matchDetalheHere_def Let_def rest_def after_def split: if_splits)
  from p have s: "s = ''detalhe_imovel('' @ rest"
    unfolding rest_def by (metis append_eq_conv_conj prefix_def)
  have "rest = ds @ after" by (simp add: ds(1) after_def)
  moreover from ds(3,4) obtain tl' where "after = CHR '')'' # tl'" by (cases after) auto
  ultimately have "s = (''detalhe_imovel('' @ ds @ '')'') @ tl'" using s by simp
  then have "prefix (''detalhe_imovel('' @ ds @ '')'') s" by (metis prefixI)
  moreover have "list_all isDigit ds"
    unfolding ds(1) list_all_iff using set_takeWhileD by fast
  ultimately show ?thesis using ds(2) by simp
qed

lemma spec_detalheOnclick_Cons:
  assumes "spec_detalheOnclick ds cs"
  shows "spec_detalheOnclick ds (c # cs)"
proof -
  define pat where "pat = ''detalhe_imovel('' @ ds @ '')''"
  from assms have a: "ds \<noteq> []" "list_all isDigit ds" "sublist pat cs"
    unfolding spec_detalheOnclick_def pat_def by blast+
  from a(3) have "sublist pat (c # cs)"
    by (rule sublist_Cons_right[THEN iffD2, OF disjI2])
  with a(1,2) show ?thesis unfolding spec_detalheOnclick_def pat_def by blast
qed

lemma spec_detalheOnclick_prefix:
  assumes "ds \<noteq> [] \<and> list_all isDigit ds \<and> prefix (''detalhe_imovel('' @ ds @ '')'') s"
  shows "spec_detalheOnclick ds s"
proof -
  define pat where "pat = ''detalhe_imovel('' @ ds @ '')''"
  from assms have a: "ds \<noteq> []" "list_all isDigit ds" "prefix pat s"
    unfolding pat_def by blast+
  from a(3) have "sublist pat s" by (rule prefix_imp_sublist)
  with a(1,2) show ?thesis unfolding spec_detalheOnclick_def pat_def by blast
qed

lemma matchDetalhe_Some: "matchDetalhe s = Some ds \<Longrightarrow> spec_detalheOnclick ds s"
proof (induction s)
  case Nil
  then show ?case by simp
next
  case (Cons c cs)
  show ?case
  proof (cases "matchDetalheHere (c # cs)")
    case None
    with Cons have "spec_detalheOnclick ds cs" by simp
    then show ?thesis by (rule spec_detalheOnclick_Cons)
  next
    case (Some d)
    with Cons.prems have "matchDetalheHere (c # cs) = Some ds" by simp
    from matchDetalheHere_Some[OF this] show ?thesis by (rule spec_detalheOnclick_prefix)
  qed
qed

lemma trim_digits: "list_all isDigit ds \<Longrightarrow> trim ds = ds"
proof (cases "ds = []")
  case True
  then show ?thesis by (simp add: trim_def)
next
  case False
  assume a: "list_all isDigit ds"
  from False have "hd ds \<in> set ds" "last ds \<in> set ds" by simp_all
  with a have "\<not> isWhiteSpace (hd ds) \<and> \<not> isWhiteSpace (last ds)"
    by (simp add: list_all_iff digit_not_space)
  then show ?thesis by (simp add: trim_id)
qed

lemma firstMatchDetalhe_Some: "firstMatchDetalhe s = Some i \<Longrightarrow> spec_detalheOnclick i s"
proof -
  assume a: "firstMatchDetalhe s = Some i"
  then obtain g where g: "matchDetalhe s = Some g" "i = trim g"
    by (auto simp: firstMatchDetalhe_def split: option.splits if_splits)
  from matchDetalhe_Some[OF g(1)] have sp: "spec_detalheOnclick g s" .
  then have "trim g = g" by (simp add: spec_detalheOnclick_def trim_digits)
  with g(2) sp show ?thesis by simp
qed

lemma find_Some_in: "find P xs = Some x \<Longrightarrow> x \<in> set xs"
  by (induction xs) (auto split: if_splits)

lemma cardOnclick_cases: "cardOnclick crd = [] \<or> cardOnclick crd \<in> snd ` set (onclickAttrs crd)"
proof (cases "find (\<lambda>(tag, oc). sublist ''detalhe_imovel'' oc) (onclickAttrs crd)")
  case None
  show ?thesis
  proof (cases "find (\<lambda>(tag, oc). tag = ''img'' \<and> sublist ''detalhe_imovel'' oc) (onclickAttrs crd)")
    case None
    with \<open>find (\<lambda>(tag, oc). sublist ''detalhe_imovel'' oc) (onclickAttrs crd) = None\<close>
    show ?thesis by (simp add: cardOnclick_def)
  next
    case (Some p)
    then have "p \<in> set (onclickAttrs crd)" by (rule find_Some_in)
    with Some \<open>find (\<lambda>(tag, oc). sublist ''detalhe_imovel'' oc) (onclickAttrs crd) = None\<close>
    show ?thesis by (cases p) (auto simp: cardOnclick_def intro: rev_image_eqI)
  qed
next
  case (Some p)
  then have "p \<in> set (onclickAttrs crd)" by (rule find_Some_in)
  with Some show ?thesis by (cases p) (auto simp: cardOnclick_def intro: rev_image_eqI)
qed

lemma firstMatchDetalhe_Nil: "firstMatchDetalhe [] = None"
  by (simp add: firstMatchDetalhe_def)

lemma parseCard_Some:
  assumes "parseCard uf' cidadeId' page' crd = Some item"
  shows "imovelId item \<noteq> [] \<and> list_all isDigit (imovelId item) \<and>
     (\<exists>oc \<in> snd ` set (onclickAttrs crd). spec_detalheOnclick (imovelId item) oc) \<and>
     uf item = uf' \<and> cidadeId item = cidadeId' \<and> page item = page'"
proof -
  from assms obtain i where i: "firstMatchDetalhe (cardOnclick crd) = Some i"
    and item: "imovelId item = i" "uf item = uf'" "cidadeId item = cidadeId'" "page item = page'"
    by (auto simp: parseCard_def split: option.splits)
  from i have sp: "spec_detalheOnclick i (cardOnclick crd)" by (rule firstMatchDetalhe_Some)
  from i have "cardOnclick crd \<noteq> []" using firstMatchDetalhe_Nil by auto
  with cardOnclick_cases[of crd] have "cardOnclick crd \<in> snd ` set (onclickAttrs crd)" by simp
  with sp have ex: "\<exists>oc \<in> snd ` set (onclickAttrs crd). spec_detalheOnclick i oc" by blast
  from sp have "i \<noteq> []" "list_all isDigit i" by (simp_all add: spec_detalheOnclick_def)
  with ex item show ?thesis by simp
qed

lemma parseCard_None:
  assumes "\<forall>oc \<in> snd ` set (onclickAttrs crd). \<forall>ds. \<not> spec_detalheOnclick ds oc"
  shows "parseCard uf' cidadeId' page' crd = None"
proof (rule ccontr)
  assume "parseCard uf' cidadeId' page' crd \<noteq> None"
  then obtain item where "parseCard uf' cidadeId' page' crd = Some item" by auto
  from parseCard_Some[OF this] assms show False by blast
qed

lemma map_filter_append: "List.map_filter f (xs @ ys) = List.map_filter f xs @ List.map_filter f ys"
  by (simp add: List.map_filter_def)

lemma set_map_filter: "set (List.map_filter f xs) = {y. \<exists>x \<in> set xs. f x = Some y}"
  by (auto simp: List.map_filter_def intro: rev_image_eqI)

text \<open>
  C4. Every item that \<open>parseListPageHtml\<close> returns comes from one of the result cards: its
  \<open>imovelId\<close> is a string of decimal digits that is not empty and stands in an onclick
  attribute of that card as \<open>detalhe_imovel(imovelId)\<close>, and its \<open>uf\<close>, \<open>cidadeId\<close> and \<open>page\<close>
  are the values passed in. A card none of whose onclick attributes has the form
  \<open>detalhe_imovel(N)\<close> contributes no item: the result is that of the cards before it followed
  by that of the cards after it.
\<close>

theorem parseListPageHtml_items:
  "(\<forall>item \<in> set (parseListPageHtml cards uf' cidadeId' page').
      imovelId item \<noteq> [] \<and> list_all isDigit (imovelId item) \<and>
      (\<exists>crd \<in> set cards. \<exists>oc \<in> snd ` set (onclickAttrs crd).
         spec_detalheOnclick (imovelId item) oc) \<and>
      uf item = uf' \<and> cidadeId item = cidadeId' \<and> page item = page') \<and>
   ((\<forall>oc \<in> snd ` set (onclickAttrs crd). \<forall>ds. \<not> spec_detalheOnclick ds oc) \<longrightarrow>
      parseListPageHtml (before @ crd # after) uf' cidadeId' page' =
        parseListPageHtml before uf' cidadeId' page' @ parseListPageHtml after uf' cidadeId' page')"
proof (intro conjI ballI impI)
  fix item
  assume "item \<in> set (parseListPageHtml cards uf' cidadeId' page')"
  then obtain c where c: "c \<in> set cards" "parseCard uf' cidadeId' page' c = Some item"
    by (auto simp: parseListPageHtml_def set_map_filter)
  note s = parseCard_Some[OF c(2)]
  from s show "imovelId item \<noteq> []" "list_all isDigit (imovelId item)" "uf item = uf'"
    "cidadeId item = cidadeId'" "page item = page'" by simp_all
  from s c(1) show "\<exists>crd \<in> set cards. \<exists>oc \<in> snd ` set (onclickAttrs crd).
         spec_detalheOnclick (imovelId item) oc" by blast
next
  assume "\<forall>oc \<in> snd ` set (onclickAttrs crd). \<forall>ds. \<not> spec_detalheOnclick ds oc"
  then have "parseCard uf' cidadeId' page' crd = None" by (rule parseCard_None)
  then show "parseListPageHtml (before @ crd # after) uf' cidadeId' page' =
        parseListPageHtml before uf' cidadeId' page' @ parseListPageHtml after uf' cidadeId' page'"
    by (simp add: parseListPageHtml_def map_filter_append List.map_filter_simps)
qed


definition listingCards :: "cardView list" where
  "listingCards =
     [plainCard [''javascript:detalhe_imovel(8555512345678);''] ''  Casa   1  '',
      plainCard [''abrir()''] ''Banner'',
      plainCard [''detalhe_imovel(12)''] ''Lote'']"

lemmas listing_eval = parseListPageHtml_def List.map_filter_simps parseCard_def plainCard_def
  cardOnclick_def firstMatchDetalhe_def matchDetalheHere_def sublist_Cons_right trim_def
  isWhiteSpace_def isDigit_def truthy_def Let_def

theorem parseListPageHtml_items_witness:
  "map imovelId (parseListPageHtml listingCards ''RJ'' ''7084'' 3) = [''8555512345678'', ''12''] \<and>
   map titulo (parseListPageHtml listingCards ''RJ'' ''7084'' 3) = [''Casa 1'', ''Lote''] \<and>
   list_all (\<lambda>item. uf item = ''RJ'' \<and> cidadeId item = ''7084'' \<and> page item = 3)
     (parseListPageHtml listingCards ''RJ'' ''7084'' 3) \<and>
   parseListPageHtml listingCards ''RJ'' ''7084'' 3 =
     parseListPageHtml [listingCards ! 0] ''RJ'' ''7084'' 3 @
     parseListPageHtml [listingCards ! 2] ''RJ'' ''7084'' 3"
proof -
  have ev: "map imovelId (parseListPageHtml listingCards ''RJ'' ''7084'' 3) = [''8555512345678'', ''12'']"
    by (simp add: listingCards_def listing_eval)
  have tit: "map titulo (parseListPageHtml listingCards ''RJ'' ''7084'' 3) = [''Casa 1'', ''Lote'']"
    by (simp add: listingCards_def listing_eval)
  have no: "\<forall>oc \<in> snd ` set (onclickAttrs (listingCards ! 1)). \<forall>ds. \<not> spec_detalheOnclick ds oc"
  proof (intro ballI allI notI)
    fix oc ds
    assume "oc \<in> snd ` set (onclickAttrs (listingCards ! 1))"
    then have oc: "oc = ''abrir()''" by (simp add: listingCards_def plainCard_def)
    assume "spec_detalheOnclick ds oc"
    then have "sublist (''detalhe_imovel('' @ ds @ '')'') ''abrir()''"
      unfolding spec_detalheOnclick_def oc by blast
    then have "length (''detalhe_imovel('' @ ds @ '')'') \<le> length ''abrir()''"
      by (rule sublist_length_le)
    then show False by simp
  qed
  have cards: "listingCards = [listingCards ! 0] @ listingCards ! 1 # [listingCards ! 2]"
    by (simp add: listingCards_def)
  note T = parseListPageHtml_items[of listingCards "''RJ''" "''7084''" 3
      "listingCards ! 1" "[listingCards ! 0]" "[listingCards ! 2]"]
  from T have all: "list_all (\<lambda>item. uf item = ''RJ'' \<and> cidadeId item = ''7084'' \<and> page item = 3)
     (parseListPageHtml listingCards ''RJ'' ''7084'' 3)"
    unfolding list_all_iff by blast
  from T no have "parseListPageHtml ([listingCards ! 0] @ listingCards ! 1 # [listingCards ! 2])
        ''RJ'' ''7084'' 3 =
     parseListPageHtml [listingCards ! 0] ''RJ'' ''7084'' 3 @
     parseListPageHtml [listingCards ! 2] ''RJ'' ''7084'' 3"
    by blast
  with cards have split: "parseListPageHtml listingCards ''RJ'' ''7084'' 3 =
     parseListPageHtml [listingCards ! 0] ''RJ'' ''7084'' 3 @
     parseListPageHtml [listingCards ! 2] ''RJ'' ''7084'' 3"
    by simp
  from ev tit all split show ?thesis by blast
qed


section \<open>The order of the rows (scrape.ts)\<close>

text \<open>
  \<open>String.prototype.localeCompare\<close> collates in the locale of the host. Strings of ASCII
  digits, which all the \<open>imovelId\<close>s of \<open>parseListPageHtml\<close> are, collate character by
  character, a proper prefix before the longer string; \<open>localeCompare\<close> is that order, on
  all strings. \<open>compareItems\<close> is the comparator that \<open>scrapeCaixa\<close> passes to \<open>sort\<close>.
\<close>

definition localeCompare :: "string \<Rightarrow> string \<Rightarrow> int" where
  "localeCompare a b = (if a < b then - 1 else if a = b then 0 else 1)"

definition compareItems :: "'a ImovelListItem_scheme \<Rightarrow> 'a ImovelListItem_scheme \<Rightarrow> int" where
  "compareItems a b =
     (let pa = page a - page b in if pa \<noteq> 0 then pa else localeCompare (imovelId a) (imovelId b))"

text \<open>
  \<open>Array.prototype.sort\<close> is stable: elements that compare equal keep their order. With a
  comparator that is a total preorder there is one such result, which insertion computes.
\<close>

fun insertBy :: "('a \<Rightarrow> 'a \<Rightarrow> int) \<Rightarrow> 'a \<Rightarrow> 'a list \<Rightarrow> 'a list" where
  "insertBy cmp x [] = [x]"
| "insertBy cmp x (y # ys) = (if cmp x y \<le> 0 then x # y # ys else y # insertBy cmp x ys)"

definition sortBy :: "('a \<Rightarrow> 'a \<Rightarrow> int) \<Rightarrow> 'a list \<Rightarrow> 'a list" where
  "sortBy cmp xs = foldr (insertBy cmp) xs []"

definition sortItems :: "'a ImovelListItem_scheme list \<Rightarrow> 'a ImovelListItem_scheme list" where
  "sortItems results = sortBy compareItems results"

text \<open>The key of the order: the page, then the \<open>imovelId\<close>.\<close>

definition rowKey :: "'a ImovelListItem_scheme \<Rightarrow> int \<times> string" where
  "rowKey a = (page a, imovelId a)"

subsection \<open>Facts about the sort\<close>

lemma compareItems_le: "compareItems a b \<le> 0 \<longleftrightarrow> rowKey a \<le> rowKey b"
  by (auto simp: compareItems_def localeCompare_def rowKey_def Let_def less_eq_prod_def)

lemma insertBy_compareItems: "insertBy compareItems x ys = insort_key rowKey x ys"
  by (induction ys) (simp_all add: compareItems_le)

lemma sortItems_sort_key: "sortItems xs = sort_key rowKey xs"
  unfolding sortItems_def sortBy_def sort_key_def
  by (induction xs) (simp_all add: insertBy_compareItems)

lemma sortItems_determined:
  assumes "mset ys = mset xs"
    and "\<And>k. filter (\<lambda>x. rowKey x = k) ys = filter (\<lambda>x. rowKey x = k) xs"
  shows "sortItems ys = sortItems xs"
proof -
  have "sort_key rowKey xs = sort_key rowKey ys"
  proof (rule properties_for_sort_key)
    show "mset (sort_key rowKey ys) = mset xs" using assms(1) by simp
    show "sorted (map rowKey (sort_key rowKey ys))" by simp
    fix k
    have sw: "(\<lambda>x. rowKey k = rowKey x) = (\<lambda>x. rowKey x = rowKey k)" by auto
    show "filter (\<lambda>x. rowKey k = rowKey x) (sort_key rowKey ys) = filter (\<lambda>x. rowKey k = rowKey x) xs"
      unfolding sw by (simp add: sort_key_stable assms(2))
  qed
  then show ?thesis by (simp add: sortItems_sort_key)
qed

lemma sortItems_sorted: "sorted (map rowKey (sortItems xs))" and sortItems_mset: "mset (sortItems xs) = mset xs"
  by (simp_all add: sortItems_sort_key)

lemma sortItems_stable: "filter (\<lambda>x. rowKey x = k) (sortItems xs) = filter (\<lambda>x. rowKey x = k) xs"
  by (simp add: sortItems_sort_key sort_key_stable)

text \<open>
  The results of the pages, each with its page number: the numbers differ from page to
  page, and an item of a page carries the number of its page.
\<close>

definition pageResults :: "(int \<times> 'a ImovelListItem_scheme list) list \<Rightarrow> bool" where
  "pageResults tagged =
     (distinct (map fst tagged) \<and> (\<forall>(n, items) \<in> set tagged. \<forall>a \<in> set items. page a = n))"

lemma filter_concat_pages:
  assumes "distinct (map fst tagged)" "\<forall>(n, items) \<in> set tagged. \<forall>a \<in> set items. page a = n"
  shows "filter (\<lambda>x. rowKey x = (pk, i)) (concat (map snd tagged)) =
     (case map_of tagged pk of None \<Rightarrow> [] | Some items \<Rightarrow> filter (\<lambda>x. rowKey x = (pk, i)) items)"
  using assms
proof (induction tagged)
  case Nil
  then show ?case by simp
next
  case (Cons t tagged)
  obtain n items where t: "t = (n, items)" by (cases t)
  from Cons.prems t have pg: "\<forall>a \<in> set items. page a = n" by simp
  from Cons.prems have IH: "filter (\<lambda>x. rowKey x = (pk, i)) (concat (map snd tagged)) =
     (case map_of tagged pk of None \<Rightarrow> [] | Some items \<Rightarrow> filter (\<lambda>x. rowKey x = (pk, i)) items)"
    by (intro Cons.IH) simp_all
  show ?case
  proof (cases "n = pk")
    case True
    with Cons.prems t have "pk \<notin> fst ` set tagged" by simp
    then have "map_of tagged pk = None" by (simp add: map_of_eq_None_iff)
    with IH True t show ?thesis by simp
  next
    case False
    with pg have "filter (\<lambda>x. rowKey x = (pk, i)) items = []"
      by (auto simp: rowKey_def filter_empty_conv)
    with IH False t show ?thesis by simp
  qed
qed

lemma sortItems_arrival:
  assumes "pageResults tagged" "mset arrived = mset tagged"
  shows "sortItems (concat (map snd arrived)) = sortItems (concat (map snd tagged))"
proof (rule sortItems_determined)
  from assms(2) have "mset (map (mset \<circ> snd) arrived) = mset (map (mset \<circ> snd) tagged)"
    by (metis mset_map)
  then have "sum_list (map (mset \<circ> snd) arrived) = sum_list (map (mset \<circ> snd) tagged)"
    by (metis sum_mset_sum_list)
  then show "mset (concat (map snd arrived)) = mset (concat (map snd tagged))"
    by (simp add: mset_concat comp_def)
next
  fix k :: "int \<times> string"
  obtain pk i where k: "k = (pk, i)" by (cases k)
  from assms(2) have se: "set arrived = set tagged" by (rule mset_eq_setD)
  from assms have d: "distinct (map fst tagged)"
    and pg: "\<forall>(n, items) \<in> set tagged. \<forall>a \<in> set items. page a = n"
    by (simp_all add: pageResults_def)
  from assms(2) have "mset (map fst arrived) = mset (map fst tagged)" by (metis mset_map)
  with d have d': "distinct (map fst arrived)" by (metis mset_eq_imp_distinct_iff)
  from se pg have pg': "\<forall>(n, items) \<in> set arrived. \<forall>a \<in> set items. page a = n" by simp
  from d d' se have "map_of arrived = map_of tagged" by (simp add: map_of_inject_set)
  then show "filter (\<lambda>x. rowKey x = k) (concat (map snd arrived)) =
     filter (\<lambda>x. rowKey x = k) (concat (map snd tagged))"
    unfolding k filter_concat_pages[OF d pg] filter_concat_pages[OF d' pg'] by simp
qed

lemma sortItems_distinct_keys:
  assumes "mset xs = mset ys" "inj_on rowKey (set xs)"
  shows "sortItems xs = sortItems ys"
proof -
  have "mset xs = mset (sort_key rowKey ys)" using assms(1) by simp
  then have "sort_key rowKey xs = sort_key rowKey ys"
    by (rule sort_key_inj_key_eq[OF _ assms(2)]) simp
  then show ?thesis by (simp add: sortItems_sort_key)
qed


subsection \<open>Pages to sort\<close>

definition twinCards :: "cardView list" where
  "twinCards = [plainCard [''detalhe_imovel(5)''] ''Casa'', plainCard [''detalhe_imovel(5)''] ''Lote'']"

definition pageOne :: "ImovelListItem list" where
  "pageOne =
     parseListPageHtml
       [plainCard [''detalhe_imovel(20)''] ''B'', plainCard [''detalhe_imovel(10)''] ''A'']
       ''RJ'' ''7084'' 1"

definition pageTwo :: "ImovelListItem list" where
  "pageTwo = parseListPageHtml [plainCard [''detalhe_imovel(7)''] ''C''] ''RJ'' ''7084'' 2"

lemmas sort_eval = sortItems_def sortBy_def compareItems_def localeCompare_def

text \<open>
  Two cards of one page with the same \<open>imovelId\<close> and different titles: the page and the
  page with the two cards exchanged parse to the same multiset of items, and the sorted
  rows differ, each keeping the order of its page.
\<close>

theorem sortItems_multiset_counterexample:
  "mset (parseListPageHtml twinCards ''RJ'' ''7084'' 1) =
     mset (parseListPageHtml (rev twinCards) ''RJ'' ''7084'' 1) \<and>
   map titulo (sortItems (parseListPageHtml twinCards ''RJ'' ''7084'' 1)) = [''Casa'', ''Lote''] \<and>
   map titulo (sortItems (parseListPageHtml (rev twinCards) ''RJ'' ''7084'' 1)) = [''Lote'', ''Casa'']"
  by (simp add: twinCards_def listing_eval sort_eval)

text \<open>
  C9, as the code has it. \<open>scrapeCaixa\<close> sorts the collected items by page ascending and,
  within a page, by \<open>imovelId\<close>; the sort keeps every item and keeps the items of equal page
  and \<open>imovelId\<close> in the order they had. The sorted rows are therefore the same for every
  order in which the results of the pages arrive, and they are a function of the multiset
  of items alone when no two different items share both page and \<open>imovelId\<close>.
\<close>

theorem sortItems_order:
  "sorted_wrt (\<lambda>a b. page a < page b \<or> (page a = page b \<and> imovelId a \<le> imovelId b)) (sortItems xs) \<and>
   (compareItems a b \<le> 0 \<longleftrightarrow> page a < page b \<or> (page a = page b \<and> imovelId a \<le> imovelId b)) \<and>
   mset (sortItems xs) = mset xs \<and>
   (\<forall>k. filter (\<lambda>x. rowKey x = k) (sortItems xs) = filter (\<lambda>x. rowKey x = k) xs) \<and>
   (pageResults tagged \<and> mset arrived = mset tagged \<longrightarrow>
      sortItems (concat (map snd arrived)) = sortItems (concat (map snd tagged))) \<and>
   (mset xs = mset ys \<and> inj_on rowKey (set xs) \<longrightarrow> sortItems xs = sortItems ys)"
proof (intro conjI allI impI)
  have "sorted_wrt (\<lambda>a b. rowKey a \<le> rowKey b) (sortItems xs)"
    using sortItems_sorted[of xs] by (simp add: sorted_map)
  then show "sorted_wrt (\<lambda>a b. page a < page b \<or> (page a = page b \<and> imovelId a \<le> imovelId b))
      (sortItems xs)"
    by (rule sorted_wrt_mono_rel[rotated]) (auto simp: rowKey_def less_eq_prod_def)
next
  show "compareItems a b \<le> 0 \<longleftrightarrow> page a < page b \<or> (page a = page b \<and> imovelId a \<le> imovelId b)"
    by (auto simp add: compareItems_le rowKey_def less_eq_prod_def)
next
  show "mset (sortItems xs) = mset xs" by (rule sortItems_mset)
next
  fix k show "filter (\<lambda>x. rowKey x = k) (sortItems xs) = filter (\<lambda>x. rowKey x = k) xs"
    by (rule sortItems_stable)
next
  assume "pageResults tagged \<and> mset arrived = mset tagged"
  then show "sortItems (concat (map snd arrived)) = sortItems (concat (map snd tagged))"
    by (simp add: sortItems_arrival)
next
  assume "mset xs = mset ys \<and> inj_on rowKey (set xs)"
  then show "sortItems xs = sortItems ys" by (simp add: sortItems_distinct_keys)
qed

theorem sortItems_order_witness:
  "map imovelId (sortItems (pageTwo @ pageOne)) = [''10'', ''20'', ''7''] \<and>
   map page (sortItems (pageTwo @ pageOne)) = [1, 1, 2] \<and>
   sortItems (pageTwo @ pageOne) = sortItems (pageOne @ pageTwo) \<and>
   sortItems (rev (pageOne @ pageTwo)) = sortItems (pageOne @ pageTwo)"
proof -
  have ids: "map imovelId (sortItems (pageTwo @ pageOne)) = [''10'', ''20'', ''7'']"
    and pgs: "map page (sortItems (pageTwo @ pageOne)) = [1, 1, 2]"
    by (simp_all add: pageOne_def pageTwo_def listing_eval sort_eval)
  have pr: "pageResults [(1, pageOne), (2, pageTwo)]"
    by (simp add: pageResults_def pageOne_def pageTwo_def listing_eval)
  have ms: "mset [(2::int, pageTwo), (1, pageOne)] = mset [(1, pageOne), (2, pageTwo)]"
    by simp
  have inj: "inj_on rowKey (set (rev (pageOne @ pageTwo)))"
    by (simp add: pageOne_def pageTwo_def listing_eval rowKey_def)
  have ms2: "mset (rev (pageOne @ pageTwo)) = mset (pageOne @ pageTwo)" by simp
  note A = sortItems_order[of "pageOne @ pageTwo" "hd pageOne" "hd pageTwo"
      "[(1, pageOne), (2, pageTwo)]" "[(2, pageTwo), (1, pageOne)]" "pageOne @ pageTwo"]
  note B = sortItems_order[of "rev (pageOne @ pageTwo)" "hd pageOne" "hd pageTwo"
      "[(1, pageOne), (2, pageTwo)]" "[(2, pageTwo), (1, pageOne)]" "pageOne @ pageTwo"]
  from A pr ms have "sortItems (concat (map snd [(2::int, pageTwo), (1, pageOne)])) =
      sortItems (concat (map snd [(1::int, pageOne), (2, pageTwo)]))" by blast
  then have e1: "sortItems (pageTwo @ pageOne) = sortItems (pageOne @ pageTwo)" by simp
  from B ms2 inj have e2: "sortItems (rev (pageOne @ pageTwo)) = sortItems (pageOne @ pageTwo)"
    by blast
  from ids pgs e1 e2 show ?thesis by blast
qed


section \<open>The detail page (src/parsers/parseDetailPage.ts)\<close>

text \<open>
  What \<open>parseDetailPageHtml\<close> reads of the loaded page through cheerio: the \<open>a\<close> elements
  in document order, each with its \<open>onclick\<close> and \<open>href\<close> attributes and its text; the
  \<open>img\<close> elements inside \<open>#galeria-imagens\<close> in document order, each with its \<open>src\<close> and
  \<open>onclick\<close> attributes; and the seventeen textual fields that lines 225 to 300 extract,
  carried as one component that no property here reads.
\<close>

record anchorView =
  aOnclick :: "string option"
  aHref :: "string option"
  aText :: string

record imgView =
  imgSrc :: "string option"
  imgOnclick :: "string option"

record 't detailView =
  anchors :: "anchorView list"
  galeriaImgs :: "imgView list"
  textFields :: 't













text \<open>\<open>s.split(sep)\<close> for a separator of one character.\<close>

fun splitOn :: "char \<Rightarrow> string \<Rightarrow> string list" where
  "splitOn sep [] = [[]]"
| "splitOn sep (c # cs) =
     (if c = sep then [] # splitOn sep cs
      else (case splitOn sep cs of p # ps \<Rightarrow> (c # p) # ps | [] \<Rightarrow> [[c]]))"

definition fotoFilename' :: "string \<Rightarrow> string" where
  "fotoFilename' u =
     (let noQuery = hd (splitOn CHR ''?'' u);
          parts = filter (\<lambda>p. p \<noteq> []) (splitOn CHR ''/'' noQuery)
      in if parts = [] then [] else last parts)"










text \<open>
  The resolution of a plain path against the base, by the URL standard: a reference that
  begins with one \<open>/\<close>, holds only letters, digits, \<open>/\<close>, \<open>.\<close>, \<open>_\<close> and \<open>-\<close> and has no
  segment \<open>.\<close> or \<open>..\<close> resolves to the base followed by the reference. \<open>plainPathURL\<close>
  is defined on these references and gives nothing elsewhere.
\<close>

definition plainPathChar :: "char \<Rightarrow> bool" where
  "plainPathChar c =
     ((CHR ''a'' \<le> c \<and> c \<le> CHR ''z'') \<or> (CHR ''A'' \<le> c \<and> c \<le> CHR ''Z'') \<or> isDigit c \<or>
      c \<in> set ''/._-'')"

definition plainPathURL :: "string \<Rightarrow> string \<Rightarrow> string option" where
  "plainPathURL ref base =
     (if prefix ''/'' ref \<and> \<not> prefix ''//'' ref \<and> list_all plainPathChar ref \<and>
         ''.'' \<notin> set (splitOn CHR ''/'' ref) \<and> ''..'' \<notin> set (splitOn CHR ''/'' ref)
      then Some (base @ ref) else None)"





subsection \<open>Facts about \<open>parseDetailPageHtml\<close>\<close>












lemma splitOn_nonempty: "splitOn sep s \<noteq> []"
  by (induction s) (auto split: list.splits)

lemma splitOn_piece: "p \<in> set (splitOn sep s) \<Longrightarrow> sep \<notin> set p \<and> sublist p s"
proof (induction s arbitrary: p)
  case Nil
  then show ?case by simp
next
  case (Cons c cs)
  show ?case
  proof (cases "c = sep")
    case True
    with Cons.prems have "p = [] \<or> p \<in> set (splitOn sep cs)" by auto
    then show ?thesis
    proof
      assume "p = []" then show ?thesis by simp
    next
      assume "p \<in> set (splitOn sep cs)"
      from Cons.IH[OF this] show ?thesis by (simp add: sublist_Cons_right)
    qed
  next
    case False
    obtain q qs where q: "splitOn sep cs = q # qs"
      using splitOn_nonempty[of sep cs] by (cases "splitOn sep cs") auto
    with False Cons.prems have "p = c # q \<or> p \<in> set qs" by auto
    then show ?thesis
    proof
      assume p: "p = c # q"
      have "q \<in> set (splitOn sep cs)" by (simp add: q)
      from Cons.IH[OF this] have nq: "sep \<notin> set q" by simp
      have "prefix q cs" using q
      proof (induction cs arbitrary: q qs)
        case Nil then show ?case by simp
      next
        case (Cons d ds)
        obtain r rs where r: "splitOn sep ds = r # rs"
          using splitOn_nonempty[of sep ds] by (cases "splitOn sep ds") auto
        with Cons show ?case by (cases "d = sep") auto
      qed
      then have "prefix (c # q) (c # cs)" by simp
      with nq False p show ?thesis by (auto intro: prefix_imp_sublist)
    next
      assume "p \<in> set qs"
      then have "p \<in> set (splitOn sep cs)" by (simp add: q)
      from Cons.IH[OF this] show ?thesis by (simp add: sublist_Cons_right)
    qed
  qed
qed

lemma splitOn_hd_prefix: "prefix (hd (splitOn sep s)) s"
proof (induction s)
  case Nil then show ?case by simp
next
  case (Cons c cs)
  obtain q qs where q: "splitOn sep cs = q # qs"
    using splitOn_nonempty[of sep cs] by (cases "splitOn sep cs") auto
  with Cons show ?case by (cases "c = sep") auto
qed

lemma fotoFilename'_piece:
  assumes "fotoFilename' u \<noteq> []"
  shows "CHR ''/'' \<notin> set (fotoFilename' u) \<and> CHR ''?'' \<notin> set (fotoFilename' u) \<and>
    sublist (fotoFilename' u) u"
proof -
  define noQuery where "noQuery = hd (splitOn CHR ''?'' u)"
  define parts where "parts = filter (\<lambda>p. p \<noteq> []) (splitOn CHR ''/'' noQuery)"
  from assms have ne: "parts \<noteq> []" and f: "fotoFilename' u = last parts"
    by (auto simp: fotoFilename'_def Let_def parts_def noQuery_def split: if_splits)
  then have "last parts \<in> set (splitOn CHR ''/'' noQuery)"
    using last_in_set[OF ne] by (simp add: parts_def)
  from splitOn_piece[OF this] have a: "CHR ''/'' \<notin> set (last parts)" "sublist (last parts) noQuery"
    by simp_all
  have "noQuery \<in> set (splitOn CHR ''?'' u)"
    unfolding noQuery_def using splitOn_nonempty[of "CHR ''?''" u] by simp
  from splitOn_piece[OF this] have b: "CHR ''?'' \<notin> set noQuery" "sublist noQuery u" by simp_all
  from a(2) b(1) have "CHR ''?'' \<notin> set (last parts)" by (meson set_mono_sublist subsetD)
  moreover from a(2) b(2) have "sublist (last parts) u" by (rule sublist_order.order_trans)
  ultimately show ?thesis using a(1) f by simp
qed














section \<open>The request sequence and the scrape (src/caixa/search.ts, listPage.ts, detail.ts, scrape.ts)\<close>

text \<open>
  The world of a scrape: the server, which answers each attempt of a call of the client
  given the calls made before (its session), the values of \<open>Math.random()\<close>, the calls
  made so far, in order, and the files written. A call of \<open>get\<close> or \<open>postForm\<close> is one
  \<open>request\<close>, with its retries, and is recorded in \<open>calls\<close>.
\<close>

datatype httpMethod = GET | POST

record httpCall =
  callMethod :: httpMethod
  callPath :: string
  callForm :: "(string \<times> string) list"

datatype cell = Blank | Str string | Numeric jsnum

record csvFile =
  csvHeader :: "string list"
  csvRecords :: "cell list list"

record world =
  serve :: "httpCall list \<Rightarrow> httpCall \<Rightarrow> nat \<Rightarrow> outcome"
  random :: "nat \<Rightarrow> real"
  calls :: "httpCall list"
  files :: "string \<Rightarrow> csvFile option"

text \<open>
  The libraries: what cheerio gives of a loaded page to each of the three parsers, and the
  URL constructor of the platform.
\<close>

record 't platform =
  cheerioSearch :: "string \<Rightarrow> searchDoc"
  cheerioCards :: "string \<Rightarrow> cardView list"
  cheerioDetail :: "string \<Rightarrow> 't detailView"
  urlResolve :: "string \<Rightarrow> string \<Rightarrow> string option"

definition clientRequest :: "int \<Rightarrow> httpCall \<Rightarrow> world \<Rightarrow> (error + HttpResponse) \<times> world" where
  "clientRequest retries c w =
     (fst (request retries (serve w (calls w) c) (random w)), w\<lparr>calls := calls w @ [c]\<rparr>)"

definition HttpClient_get :: "int \<Rightarrow> string \<Rightarrow> world \<Rightarrow> (error + HttpResponse) \<times> world" where
  "HttpClient_get retries path =
     clientRequest retries \<lparr>callMethod = GET, callPath = path, callForm = []\<rparr>"

definition HttpClient_postForm ::
  "int \<Rightarrow> string \<Rightarrow> (string \<times> string) list \<Rightarrow> world \<Rightarrow> (error + HttpResponse) \<times> world" where
  "HttpClient_postForm retries path form =
     clientRequest retries \<lparr>callMethod = POST, callPath = path, callForm = form\<rparr>"

record CaixaSearchPayload =
  hdn_estado :: string
  hdn_cidade :: string
  hdn_bairro :: string
  hdn_tp_venda :: string
  hdn_tp_imovel :: string
  hdn_area_util :: string
  hdn_faixa_vlr :: string
  hdn_quartos :: string
  hdn_vg_garagem :: string
  strValorSimulador :: string
  strAceitaFGTS :: string
  strAceitaFinanciamento :: string

definition payloadForm :: "CaixaSearchPayload \<Rightarrow> (string \<times> string) list" where
  "payloadForm p =
     [(''hdn_estado'', hdn_estado p), (''hdn_cidade'', hdn_cidade p), (''hdn_bairro'', hdn_bairro p),
      (''hdn_tp_venda'', hdn_tp_venda p), (''hdn_tp_imovel'', hdn_tp_imovel p),
      (''hdn_area_util'', hdn_area_util p), (''hdn_faixa_vlr'', hdn_faixa_vlr p),
      (''hdn_quartos'', hdn_quartos p), (''hdn_vg_garagem'', hdn_vg_garagem p),
      (''strValorSimulador'', strValorSimulador p), (''strAceitaFGTS'', strAceitaFGTS p),
      (''strAceitaFinanciamento'', strAceitaFinanciamento p)]"

definition searchPagePath :: string where
  "searchPagePath = ''/sistema/busca-imovel.asp?sltTipoBusca=imoveis''"

definition searchFormPath :: string where
  "searchFormPath = ''/sistema/carregaPesquisaImoveis.asp''"

definition listPagePath :: string where
  "listPagePath = ''/sistema/carregaListaImoveis.asp''"

definition detailPagePath :: string where
  "detailPagePath = ''/sistema/detalhe-imovel.asp''"

definition runSearch ::
  "'t platform \<Rightarrow> int \<Rightarrow> CaixaSearchPayload \<Rightarrow> world \<Rightarrow> (error + CaixaSearchResult) \<times> world" where
  "runSearch lib retries payload w =
     (case HttpClient_get retries searchPagePath w of
        (Inl e, w1) \<Rightarrow> (Inl e, w1)
      | (Inr established, w1) \<Rightarrow>
          (case HttpClient_postForm retries searchFormPath (payloadForm payload) w1 of
             (Inl e, w2) \<Rightarrow> (Inl e, w2)
           | (Inr res, w2) \<Rightarrow>
               if status res \<noteq> 200 then (Inl (SearchFailed (status res)), w2)
               else (parseSearchResponse (cheerioSearch lib (bodyText res)), w2)))"

definition fetchListPageHtml :: "int \<Rightarrow> string \<Rightarrow> world \<Rightarrow> (error + string) \<times> world" where
  "fetchListPageHtml retries hdnImov w =
     (case HttpClient_postForm retries listPagePath [(''hdnImov'', hdnImov)] w of
        (Inl e, w1) \<Rightarrow> (Inl e, w1)
      | (Inr res, w1) \<Rightarrow>
          if status res \<noteq> 200 then (Inl (ListPageFailed (status res)), w1)
          else (Inr (bodyText res), w1))"

definition fetchDetailPageHtml :: "int \<Rightarrow> string \<Rightarrow> world \<Rightarrow> (error + string) \<times> world" where
  "fetchDetailPageHtml retries imovelId' w =
     (case HttpClient_postForm retries detailPagePath [(''hdnimovel'', imovelId')] w of
        (Inl e, w1) \<Rightarrow> (Inl e, w1)
      | (Inr res, w1) \<Rightarrow>
          if status res \<noteq> 200 then (Inl (DetailPageFailed (status res) imovelId'), w1)
          else (Inr (bodyText res), w1))"

subsection \<open>Facts about the request sequence\<close>

lemma clientRequest_calls: "calls (snd (clientRequest retries c w)) = calls w @ [c]"
  by (simp add: clientRequest_def)

definition emptyServer :: "httpCall list \<Rightarrow> httpCall \<Rightarrow> nat \<Rightarrow> outcome" where
  "emptyServer past c attempt = Responded \<lparr>status = 200, bodyText = []\<rparr>"

definition echoServer :: "httpCall list \<Rightarrow> httpCall \<Rightarrow> nat \<Rightarrow> outcome" where
  "echoServer past c attempt =
     (if callPath c = listPagePath then Responded \<lparr>status = 200, bodyText = concat (map snd (callForm c))\<rparr>
      else if callPath c = detailPagePath then Responded \<lparr>status = 404, bodyText = ''gone''\<rparr>
      else Responded \<lparr>status = 200, bodyText = ''ok''\<rparr>)"

definition silentServer :: "httpCall list \<Rightarrow> httpCall \<Rightarrow> nat \<Rightarrow> outcome" where
  "silentServer past c attempt = Threw ''ECONNRESET''"

definition newWorld :: "(httpCall list \<Rightarrow> httpCall \<Rightarrow> nat \<Rightarrow> outcome) \<Rightarrow> world" where
  "newWorld server = \<lparr>serve = server, random = (\<lambda>n. 0), calls = [], files = (\<lambda>p. None)\<rparr>"

definition blankPlatform :: "unit platform" where
  "blankPlatform =
     \<lparr>cheerioSearch = (\<lambda>html. []), cheerioCards = (\<lambda>html. []),
      cheerioDetail = (\<lambda>html. \<lparr>anchors = [], galeriaImgs = [], textFields = ()\<rparr>),
      urlResolve = plainPathURL\<rparr>"

definition somePayload :: CaixaSearchPayload where
  "somePayload =
     \<lparr>hdn_estado = ''RJ'', hdn_cidade = ''7084'', hdn_bairro = [], hdn_tp_venda = ''Selecione'',
      hdn_tp_imovel = ''Selecione'', hdn_area_util = ''Selecione'', hdn_faixa_vlr = ''Selecione'',
      hdn_quartos = ''Selecione'', hdn_vg_garagem = ''Selecione'', strValorSimulador = [],
      strAceitaFGTS = [], strAceitaFinanciamento = []\<rparr>"



lemma parseSearchResponse_not_SearchFailed: "parseSearchResponse doc \<noteq> Inl (SearchFailed n)"
  by (auto simp: parseSearchResponse_def parseIntStrict_def Let_def split: sum.splits if_splits)

lemma HttpClient_get_calls:
  "calls (snd (HttpClient_get retries path w)) =
     calls w @ [\<lparr>callMethod = GET, callPath = path, callForm = []\<rparr>]"
  by (simp add: HttpClient_get_def clientRequest_calls)

lemma HttpClient_postForm_calls:
  "calls (snd (HttpClient_postForm retries path form w)) =
     calls w @ [\<lparr>callMethod = POST, callPath = path, callForm = form\<rparr>]"
  by (simp add: HttpClient_postForm_def clientRequest_calls)

lemma runSearch_no_session:
  "fst (HttpClient_get retries searchPagePath w) = Inl e \<Longrightarrow>
   runSearch lib retries payload w = (Inl e, snd (HttpClient_get retries searchPagePath w))"
  by (cases "HttpClient_get retries searchPagePath w") (simp add: runSearch_def)

lemma runSearch_posted:
  assumes "fst (HttpClient_get retries searchPagePath w) = Inr established"
  shows "runSearch lib retries payload w =
     (case HttpClient_postForm retries searchFormPath (payloadForm payload)
             (snd (HttpClient_get retries searchPagePath w)) of
        (Inl e, w2) \<Rightarrow> (Inl e, w2)
      | (Inr res, w2) \<Rightarrow>
          if status res \<noteq> 200 then (Inl (SearchFailed (status res)), w2)
          else (parseSearchResponse (cheerioSearch lib (bodyText res)), w2))"
  using assms by (cases "HttpClient_get retries searchPagePath w") (simp add: runSearch_def)

lemma runSearch_calls:
  assumes "fst (HttpClient_get retries searchPagePath w) = Inr established"
  shows "calls (snd (runSearch lib retries payload w)) =
     calls w @ [\<lparr>callMethod = GET, callPath = searchPagePath, callForm = []\<rparr>,
                \<lparr>callMethod = POST, callPath = searchFormPath, callForm = payloadForm payload\<rparr>]"
proof -
  let ?w1 = "snd (HttpClient_get retries searchPagePath w)"
  let ?p = "HttpClient_postForm retries searchFormPath (payloadForm payload) ?w1"
  have "snd (runSearch lib retries payload w) = snd ?p"
    unfolding runSearch_posted[OF assms]
    by (cases ?p) (auto split: sum.splits)
  then show ?thesis by (simp add: HttpClient_postForm_calls HttpClient_get_calls)
qed

lemma runSearch_result:
  assumes "fst (HttpClient_get retries searchPagePath w) = Inr established"
    and "fst (HttpClient_postForm retries searchFormPath (payloadForm payload)
             (snd (HttpClient_get retries searchPagePath w))) = Inr res"
  shows "fst (runSearch lib retries payload w) =
     (if status res \<noteq> 200 then Inl (SearchFailed (status res))
      else parseSearchResponse (cheerioSearch lib (bodyText res)))"
  unfolding runSearch_posted[OF assms(1)] using assms(2)
  by (cases "HttpClient_postForm retries searchFormPath (payloadForm payload)
             (snd (HttpClient_get retries searchPagePath w))") auto

lemma runSearch_post_failed:
  assumes "fst (HttpClient_get retries searchPagePath w) = Inr established"
    and "fst (HttpClient_postForm retries searchFormPath (payloadForm payload)
             (snd (HttpClient_get retries searchPagePath w))) = Inl e"
  shows "fst (runSearch lib retries payload w) = Inl e"
  unfolding runSearch_posted[OF assms(1)] using assms(2)
  by (cases "HttpClient_postForm retries searchFormPath (payloadForm payload)
             (snd (HttpClient_get retries searchPagePath w))") auto

lemma fetchListPageHtml_result:
  "fetchListPageHtml retries hdnImov w =
     (case fst (HttpClient_postForm retries listPagePath [(''hdnImov'', hdnImov)] w) of
        Inl e \<Rightarrow> Inl e
      | Inr res \<Rightarrow> if status res \<noteq> 200 then Inl (ListPageFailed (status res)) else Inr (bodyText res),
      snd (HttpClient_postForm retries listPagePath [(''hdnImov'', hdnImov)] w))"
  by (cases "HttpClient_postForm retries listPagePath [(''hdnImov'', hdnImov)] w")
    (auto simp: fetchListPageHtml_def split: sum.splits)

lemma fetchDetailPageHtml_result:
  "fetchDetailPageHtml retries i w =
     (case fst (HttpClient_postForm retries detailPagePath [(''hdnimovel'', i)] w) of
        Inl e \<Rightarrow> Inl e
      | Inr res \<Rightarrow> if status res \<noteq> 200 then Inl (DetailPageFailed (status res) i) else Inr (bodyText res),
      snd (HttpClient_postForm retries detailPagePath [(''hdnimovel'', i)] w))"
  by (cases "HttpClient_postForm retries detailPagePath [(''hdnimovel'', i)] w")
    (auto simp: fetchDetailPageHtml_def split: sum.splits)

lemmas world_eval = runSearch_def fetchListPageHtml_def fetchDetailPageHtml_def HttpClient_get_def
  HttpClient_postForm_def clientRequest_def request_def requestLoop.simps isRetryableStatus_def
  newWorld_def emptyServer_def echoServer_def silentServer_def blankPlatform_def listPagePath_def detailPagePath_def
  searchPagePath_def searchFormPath_def

text \<open>
  A server that answers every call with status 200 and an empty body: the POST of the
  search has status 200 and \<open>runSearch\<close> throws, for the body holds no \<open>hdnImov1\<close>.
\<close>

theorem runSearch_counterexample:
  "fst (HttpClient_postForm 0 searchFormPath (payloadForm somePayload)
         (snd (HttpClient_get 0 searchPagePath (newWorld emptyServer)))) =
     Inr \<lparr>status = 200, bodyText = []\<rparr> \<and>
   cheerioSearch blankPlatform [] = [] \<and>
   fst (runSearch blankPlatform 0 somePayload (newWorld emptyServer)) = Inl NoHdnImovInputs"
  by (simp add: world_eval parseSearchResponse_def parseIntStrict_def attrValue_def number_eval
      hdnImovLoop.simps)

text \<open>
  C7, as the code has it. \<open>runSearch\<close> first issues a GET to the search page; when the
  client yields no response for it, its error is thrown and nothing is posted. Otherwise
  \<open>runSearch\<close> POSTs the search form, and given the response it throws the error of a failed
  search if and only if the status is not 200, and with status 200 it returns what
  \<open>parseSearchResponse\<close> returns for the body, which may be an error of the parser.
  \<open>fetchListPageHtml\<close> and \<open>fetchDetailPageHtml\<close> each issue one POST; given the
  response they throw if and only if its status is not 200 and otherwise return its body
  unchanged. In all three the error of a client that got no response is thrown on.
\<close>

theorem request_sequence:
  "(\<forall>e. fst (HttpClient_get retries searchPagePath w) = Inl e \<longrightarrow>
      fst (runSearch lib retries payload w) = Inl e \<and>
      calls (snd (runSearch lib retries payload w)) =
        calls w @ [\<lparr>callMethod = GET, callPath = searchPagePath, callForm = []\<rparr>]) \<and>
   (\<forall>established. fst (HttpClient_get retries searchPagePath w) = Inr established \<longrightarrow>
      calls (snd (runSearch lib retries payload w)) =
        calls w @ [\<lparr>callMethod = GET, callPath = searchPagePath, callForm = []\<rparr>,
                   \<lparr>callMethod = POST, callPath = searchFormPath, callForm = payloadForm payload\<rparr>] \<and>
      (\<forall>e. fst (HttpClient_postForm retries searchFormPath (payloadForm payload)
                  (snd (HttpClient_get retries searchPagePath w))) = Inl e \<longrightarrow>
           fst (runSearch lib retries payload w) = Inl e) \<and>
      (\<forall>res. fst (HttpClient_postForm retries searchFormPath (payloadForm payload)
                  (snd (HttpClient_get retries searchPagePath w))) = Inr res \<longrightarrow>
           (fst (runSearch lib retries payload w) = Inl (SearchFailed (status res)) \<longleftrightarrow>
              status res \<noteq> 200) \<and>
           (status res = 200 \<longrightarrow>
              fst (runSearch lib retries payload w) =
                parseSearchResponse (cheerioSearch lib (bodyText res))))) \<and>
   calls (snd (fetchListPageHtml retries hdnImov w)) =
     calls w @ [\<lparr>callMethod = POST, callPath = listPagePath, callForm = [(''hdnImov'', hdnImov)]\<rparr>] \<and>
   (\<forall>e. fst (HttpClient_postForm retries listPagePath [(''hdnImov'', hdnImov)] w) = Inl e \<longrightarrow>
      fst (fetchListPageHtml retries hdnImov w) = Inl e) \<and>
   (\<forall>res. fst (HttpClient_postForm retries listPagePath [(''hdnImov'', hdnImov)] w) = Inr res \<longrightarrow>
      ((\<exists>e. fst (fetchListPageHtml retries hdnImov w) = Inl e) \<longleftrightarrow> status res \<noteq> 200) \<and>
      (status res = 200 \<longrightarrow> fst (fetchListPageHtml retries hdnImov w) = Inr (bodyText res))) \<and>
   calls (snd (fetchDetailPageHtml retries i w)) =
     calls w @ [\<lparr>callMethod = POST, callPath = detailPagePath, callForm = [(''hdnimovel'', i)]\<rparr>] \<and>
   (\<forall>e. fst (HttpClient_postForm retries detailPagePath [(''hdnimovel'', i)] w) = Inl e \<longrightarrow>
      fst (fetchDetailPageHtml retries i w) = Inl e) \<and>
   (\<forall>res. fst (HttpClient_postForm retries detailPagePath [(''hdnimovel'', i)] w) = Inr res \<longrightarrow>
      ((\<exists>e. fst (fetchDetailPageHtml retries i w) = Inl e) \<longleftrightarrow> status res \<noteq> 200) \<and>
      (status res = 200 \<longrightarrow> fst (fetchDetailPageHtml retries i w) = Inr (bodyText res)))"
proof (intro conjI allI impI)
  fix e assume g: "fst (HttpClient_get retries searchPagePath w) = Inl e"
  from runSearch_no_session[OF g, of lib payload] show "fst (runSearch lib retries payload w) = Inl e" by simp
  from runSearch_no_session[OF g, of lib payload] show "calls (snd (runSearch lib retries payload w)) =
        calls w @ [\<lparr>callMethod = GET, callPath = searchPagePath, callForm = []\<rparr>]"
    by (simp add: HttpClient_get_calls)
next
  fix established assume g: "fst (HttpClient_get retries searchPagePath w) = Inr established"
  show "calls (snd (runSearch lib retries payload w)) =
        calls w @ [\<lparr>callMethod = GET, callPath = searchPagePath, callForm = []\<rparr>,
                   \<lparr>callMethod = POST, callPath = searchFormPath, callForm = payloadForm payload\<rparr>]"
    by (rule runSearch_calls[OF g, of lib payload])
  {
    fix e assume "fst (HttpClient_postForm retries searchFormPath (payloadForm payload)
                  (snd (HttpClient_get retries searchPagePath w))) = Inl e"
    then show "fst (runSearch lib retries payload w) = Inl e" by (rule runSearch_post_failed[OF g])
  }
  fix res assume p: "fst (HttpClient_postForm retries searchFormPath (payloadForm payload)
                  (snd (HttpClient_get retries searchPagePath w))) = Inr res"
  note r = runSearch_result[OF g p, of lib]
  show "fst (runSearch lib retries payload w) = Inl (SearchFailed (status res)) \<longleftrightarrow>
              status res \<noteq> 200"
    unfolding r using parseSearchResponse_not_SearchFailed by auto
  assume "status res = 200"
  with r show "fst (runSearch lib retries payload w) =
                parseSearchResponse (cheerioSearch lib (bodyText res))" by simp
next
  show "calls (snd (fetchListPageHtml retries hdnImov w)) =
     calls w @ [\<lparr>callMethod = POST, callPath = listPagePath, callForm = [(''hdnImov'', hdnImov)]\<rparr>]"
    by (simp add: fetchListPageHtml_result HttpClient_postForm_calls)
next
  fix e assume "fst (HttpClient_postForm retries listPagePath [(''hdnImov'', hdnImov)] w) = Inl e"
  then show "fst (fetchListPageHtml retries hdnImov w) = Inl e"
    by (simp add: fetchListPageHtml_result)
next
  fix res assume p: "fst (HttpClient_postForm retries listPagePath [(''hdnImov'', hdnImov)] w) = Inr res"
  then show "(\<exists>e. fst (fetchListPageHtml retries hdnImov w) = Inl e) \<longleftrightarrow> status res \<noteq> 200"
    by (simp add: fetchListPageHtml_result)
  assume "status res = 200"
  with p show "fst (fetchListPageHtml retries hdnImov w) = Inr (bodyText res)"
    by (simp add: fetchListPageHtml_result)
next
  show "calls (snd (fetchDetailPageHtml retries i w)) =
     calls w @ [\<lparr>callMethod = POST, callPath = detailPagePath, callForm = [(''hdnimovel'', i)]\<rparr>]"
    by (simp add: fetchDetailPageHtml_result HttpClient_postForm_calls)
next
  fix e assume "fst (HttpClient_postForm retries detailPagePath [(''hdnimovel'', i)] w) = Inl e"
  then show "fst (fetchDetailPageHtml retries i w) = Inl e"
    by (simp add: fetchDetailPageHtml_result)
next
  fix res assume p: "fst (HttpClient_postForm retries detailPagePath [(''hdnimovel'', i)] w) = Inr res"
  then show "(\<exists>e. fst (fetchDetailPageHtml retries i w) = Inl e) \<longleftrightarrow> status res \<noteq> 200"
    by (simp add: fetchDetailPageHtml_result)
  assume "status res = 200"
  with p show "fst (fetchDetailPageHtml retries i w) = Inr (bodyText res)"
    by (simp add: fetchDetailPageHtml_result)
qed


theorem request_sequence_witness:
  "map callMethod (calls (snd (runSearch blankPlatform 0 somePayload (newWorld echoServer)))) = [GET, POST] \<and>
   fst (runSearch blankPlatform 0 somePayload (newWorld echoServer)) = parseSearchResponse [] \<and>
   fst (runSearch blankPlatform 0 somePayload (newWorld silentServer)) = Inl (NoResponse (Some ''ECONNRESET'')) \<and>
   map callMethod (calls (snd (runSearch blankPlatform 0 somePayload (newWorld silentServer)))) = [GET] \<and>
   fst (fetchListPageHtml 0 ''tok'' (newWorld echoServer)) = Inr ''tok'' \<and>
   fst (fetchDetailPageHtml 0 ''55'' (newWorld echoServer)) = Inl (DetailPageFailed 404 ''55'') \<and>
   fst (fetchListPageHtml 0 ''tok'' (newWorld silentServer)) = Inl (NoResponse (Some ''ECONNRESET''))"
proof -
  let ?w = "newWorld echoServer" and ?s = "newWorld silentServer"
  note A = request_sequence[of 0 ?w blankPlatform somePayload "''tok''" "''55''"]
  note B = request_sequence[of 0 ?s blankPlatform somePayload "''tok''" "''55''"]
  have g: "fst (HttpClient_get 0 searchPagePath ?w) = Inr \<lparr>status = 200, bodyText = ''ok''\<rparr>"
    by (simp add: world_eval)
  have p: "fst (HttpClient_postForm 0 searchFormPath (payloadForm somePayload)
      (snd (HttpClient_get 0 searchPagePath ?w))) = Inr \<lparr>status = 200, bodyText = ''ok''\<rparr>"
    by (simp add: world_eval)
  from A g have c: "calls (snd (runSearch blankPlatform 0 somePayload ?w)) =
        calls ?w @ [\<lparr>callMethod = GET, callPath = searchPagePath, callForm = []\<rparr>,
                   \<lparr>callMethod = POST, callPath = searchFormPath, callForm = payloadForm somePayload\<rparr>]"
    by blast
  from A g p have "status \<lparr>status = 200, bodyText = ''ok''\<rparr> = 200 \<longrightarrow>
      fst (runSearch blankPlatform 0 somePayload ?w) =
        parseSearchResponse (cheerioSearch blankPlatform (bodyText \<lparr>status = 200, bodyText = ''ok''\<rparr>))"
    by blast
  then have r: "fst (runSearch blankPlatform 0 somePayload ?w) = parseSearchResponse []"
    by (simp add: blankPlatform_def)
  have gs: "fst (HttpClient_get 0 searchPagePath ?s) = Inl (NoResponse (Some ''ECONNRESET''))"
    by (simp add: world_eval)
  from B gs have rs: "fst (runSearch blankPlatform 0 somePayload ?s) = Inl (NoResponse (Some ''ECONNRESET''))"
    and cs: "calls (snd (runSearch blankPlatform 0 somePayload ?s)) =
        calls ?s @ [\<lparr>callMethod = GET, callPath = searchPagePath, callForm = []\<rparr>]"
    by blast+
  have l: "fst (HttpClient_postForm 0 listPagePath [(''hdnImov'', ''tok'')] ?w) =
      Inr \<lparr>status = 200, bodyText = ''tok''\<rparr>"
    by (simp add: world_eval)
  from A l have "status \<lparr>status = 200, bodyText = ''tok''\<rparr> = 200 \<longrightarrow>
      fst (fetchListPageHtml 0 ''tok'' ?w) = Inr (bodyText \<lparr>status = 200, bodyText = ''tok''\<rparr>)"
    by blast
  then have fl: "fst (fetchListPageHtml 0 ''tok'' ?w) = Inr ''tok''" by simp
  have d: "fst (HttpClient_postForm 0 detailPagePath [(''hdnimovel'', ''55'')] ?w) =
      Inr \<lparr>status = 404, bodyText = ''gone''\<rparr>"
    by (simp add: world_eval)
  from A d have "(\<exists>e. fst (fetchDetailPageHtml 0 ''55'' ?w) = Inl e) \<longleftrightarrow>
      status \<lparr>status = 404, bodyText = ''gone''\<rparr> \<noteq> 200"
    by blast
  then have "\<exists>e. fst (fetchDetailPageHtml 0 ''55'' ?w) = Inl e" by simp
  then have fd: "fst (fetchDetailPageHtml 0 ''55'' ?w) = Inl (DetailPageFailed 404 ''55'')"
    using d by (auto simp: fetchDetailPageHtml_result)
  have ls: "fst (HttpClient_postForm 0 listPagePath [(''hdnImov'', ''tok'')] ?s) =
      Inl (NoResponse (Some ''ECONNRESET''))"
    by (simp add: world_eval)
  from B ls have fs: "fst (fetchListPageHtml 0 ''tok'' ?s) = Inl (NoResponse (Some ''ECONNRESET''))"
    by blast
  from c cs have "map callMethod (calls (snd (runSearch blankPlatform 0 somePayload ?w))) = [GET, POST]"
    and "map callMethod (calls (snd (runSearch blankPlatform 0 somePayload ?s))) = [GET]"
    by (simp_all add: newWorld_def)
  with r rs fl fd fs show ?thesis by blast
qed


subsection \<open>The rows written (src/fs-api/writeCsv.ts)\<close>







subsection \<open>The scrape (scrape.ts)\<close>













subsection \<open>Facts about the rows\<close>







subsection \<open>A scrape of two pages\<close>










end
